theory Spec2Isabelle
  imports Main "HOL-Library.Word" "HOL-Library.AList"
begin

unbundle bit_operations_syntax

section \<open>JavaScript numbers and 32-bit operators\<close>

text \<open>
  The sources compute with JavaScript numbers. Every number that occurs is an integer of
  magnitude below \<open>2^53\<close> (ids, types, lengths, offsets), where number arithmetic is
  exact, so numbers are modelled as \<open>int\<close> (or \<open>nat\<close> for counts and offsets). The
  bit operators \<open><<\<close>, \<open>>>\<close>, \<open>|\<close> and \<open>&\<close> first convert their operands to signed
  32-bit integers; that wrap-around is written out.
\<close>

type_synonym byte = "8 word"

definition ToInt32 :: "int \<Rightarrow> int" where
  "ToInt32 x = (x + 2 ^ 31) mod 2 ^ 32 - 2 ^ 31"

definition ToUint32 :: "int \<Rightarrow> int" where
  "ToUint32 x = x mod 2 ^ 32"

definition js_shl :: "int \<Rightarrow> nat \<Rightarrow> int" where
  \<comment> \<open>\<open>x << n\<close>\<close>
  "js_shl x n = ToInt32 (ToInt32 x * 2 ^ n)"

definition js_sar :: "int \<Rightarrow> nat \<Rightarrow> int" where
  \<comment> \<open>\<open>x >> n\<close>, the sign-propagating shift\<close>
  "js_sar x n = ToInt32 x div 2 ^ n"

definition js_or :: "int \<Rightarrow> int \<Rightarrow> int" where
  \<comment> \<open>\<open>a | b\<close>\<close>
  "js_or a b = ToInt32 a OR ToInt32 b"

definition js_and :: "int \<Rightarrow> int \<Rightarrow> int" where
  \<comment> \<open>\<open>a & b\<close>\<close>
  "js_and a b = ToInt32 a AND ToInt32 b"

section \<open>Messages (message-types.ts)\<close>

text \<open>
  Modelled from the spec: \<open>src/message-types.ts\<close> is not among the sources. The spec
  (section 3) gives the seven numeric message types, the table of their names and the
  message record; the per-role tables \<open>InitiatorMessageTypes\<close> and
  \<open>ReceiverMessageTypes\<close> follow the spec's section 4.5.
\<close>

definition NEW_STREAM :: nat where "NEW_STREAM = 0"
definition MESSAGE_RECEIVER :: nat where "MESSAGE_RECEIVER = 1"
definition MESSAGE_INITIATOR :: nat where "MESSAGE_INITIATOR = 2"
definition CLOSE_RECEIVER :: nat where "CLOSE_RECEIVER = 3"
definition CLOSE_INITIATOR :: nat where "CLOSE_INITIATOR = 4"
definition RESET_RECEIVER :: nat where "RESET_RECEIVER = 5"
definition RESET_INITIATOR :: nat where "RESET_INITIATOR = 6"

definition MessageTypeNames :: "nat \<Rightarrow> string option" where
  "MessageTypeNames t =
     (if t < 7
      then Some ([''NEW_STREAM'', ''MESSAGE_RECEIVER'', ''MESSAGE_INITIATOR'', ''CLOSE_RECEIVER'',
                  ''CLOSE_INITIATOR'', ''RESET_RECEIVER'', ''RESET_INITIATOR''] ! t)
      else None)"

text \<open>
  Modelled from the spec: the byte-list container \<open>src/thirdparty/uint8arraylist\<close> is
  not among the sources. By the spec's section 4.2 it is a sequence of bytes with
  \<open>append\<close>, \<open>length\<close>, \<open>get\<close>, \<open>sublist\<close> and \<open>consume\<close>, compared by content; it is
  represented by its content, a \<open>byte list\<close>: \<open>append\<close> is \<open>@\<close>, \<open>sublist a b\<close> is
  \<open>take (b - a) \<circ> drop a\<close>, \<open>consume n\<close> is \<open>drop n\<close>. How the content is cut into
  chunks is not part of that contract: \<open>bufs\<close>, the chunks that iterating a byte-list
  yields, are none for an empty byte-list (a \<open>sublist\<close> of no bytes holds no chunk) and
  otherwise the content as one chunk.
\<close>

definition sublist :: "byte list \<Rightarrow> nat \<Rightarrow> nat \<Rightarrow> byte list" where
  "sublist l start end = take (end - start) (drop start l)"

definition consume :: "nat \<Rightarrow> byte list \<Rightarrow> byte list" where
  "consume n l = drop n l"

definition bufs :: "byte list \<Rightarrow> byte list list" where
  "bufs l = (if l = [] then [] else [l])"

record message =
  msg_id :: int
  msg_type :: nat
  msg_data :: "byte list option"

datatype error =
    RangeError
  | InvalidType nat
  | MuxerClosed
  | TooManyOutboundStreams
  | StreamExists
  | TooManyOpenStreams
  | InputBufferFull
  | StreamReset
  | DoubleSink
  | SinkEnded
  | TypeError
  | UserError string

section \<open>Varint codec\<close>

text \<open>
  Modelled from the spec: \<open>varint.encode\<close> belongs to the package \<open>varint\<close>, which is
  not among the sources. It is unsigned LEB128 (spec section 4.1): seven bits per byte,
  least significant group first, the top bit set on every byte but the last; each byte is
  \<open>(num & 0xFF) | 0x80\<close> and the rest is \<open>num\<close> divided by 128. The package refuses
  numbers above \<open>2^53 - 1\<close>; the encoder below only passes a 32-bit header word or the
  length of a byte array, so that guard is not modelled. For a negative argument the
  package's unsigned shift \<open>>>>\<close> reads the 32-bit two's complement pattern.
\<close>

function varint_encode_nat :: "nat \<Rightarrow> byte list" where
  "varint_encode_nat num =
     (if num \<ge> 128
      then word_of_nat ((num AND 255) OR 128) # varint_encode_nat (num div 128)
      else [word_of_nat num])"
  by pat_completeness auto
termination
  by (relation "measure id") auto

declare varint_encode_nat.simps [simp del]

definition varint_encode :: "int \<Rightarrow> byte list" where
  "varint_encode num = varint_encode_nat (nat (if num < 0 then ToUint32 num else num))"

text \<open>
  \<open>readVarInt\<close> (decode.ts): the \<open>do ... while (b >= MSB)\<close> loop, with the running
  \<open>res\<close>, \<open>shift\<close> and \<open>counter\<close> as arguments. It returns the value and the number of
  bytes read (\<open>counter - offset\<close>), or throws \<open>RangeError\<close>.
\<close>

function readVarInt_loop :: "byte list \<Rightarrow> int \<Rightarrow> nat \<Rightarrow> nat \<Rightarrow> error + (int \<times> nat)" where
  "readVarInt_loop buf res shift counter =
     (if counter \<ge> length buf \<or> shift > 49 then Inl RangeError
      else
        let b = unat (buf ! counter);
            res' = res + (if shift < 28 then js_shl (int (b AND 127)) shift
                          else int (b AND 127) * 2 ^ shift)
        in if b \<ge> 128 then readVarInt_loop buf res' (shift + 7) (counter + 1)
           else Inr (res', counter + 1))"
  by pat_completeness auto
termination
  by (relation "measure (\<lambda>(buf, res, shift, counter). length buf - counter)") auto

declare readVarInt_loop.simps [simp del]

definition readVarInt :: "byte list \<Rightarrow> nat \<Rightarrow> error + (int \<times> nat)" where
  "readVarInt buf offset =
     (case readVarInt_loop buf 0 0 offset of
        Inl e \<Rightarrow> Inl e
      | Inr (res, counter) \<Rightarrow> Inr (res, counter - offset))"

section \<open>Encoder (encode.ts)\<close>

definition POOL_SIZE :: nat where
  "POOL_SIZE = 10 * 1024"

definition allocUnsafe :: "nat \<Rightarrow> byte list" where
  \<comment> \<open>the content of a fresh block is unspecified; the encoder writes every byte before
      it reads it\<close>
  "allocUnsafe n = replicate n 0"

record encoder =
  pool :: "byte list"
  poolOffset :: nat

definition new_Encoder :: encoder where
  "new_Encoder = \<lparr>pool = allocUnsafe POOL_SIZE, poolOffset = 0\<rparr>"

fun write_bytes :: "byte list \<Rightarrow> nat \<Rightarrow> byte list \<Rightarrow> byte list" where
  \<comment> \<open>\<open>varint.encode(num, out, offset)\<close> stores its bytes at \<open>out[offset++]\<close>; a typed
      array ignores a store beyond its end, as \<open>list_update\<close> does\<close>
  "write_bytes out offset [] = out"
| "write_bytes out offset (b # bs) = write_bytes (out[offset := b]) (Suc offset) bs"

definition subarray :: "byte list \<Rightarrow> nat \<Rightarrow> nat \<Rightarrow> byte list" where
  "subarray a start end = take (end - start) (drop start a)"

definition has_payload :: "message \<Rightarrow> bool" where
  "has_payload msg \<longleftrightarrow>
     (msg_type msg = NEW_STREAM \<or> msg_type msg = MESSAGE_INITIATOR \<or> msg_type msg = MESSAGE_RECEIVER)
     \<and> msg_data msg \<noteq> None"

definition Encoder_write :: "encoder \<Rightarrow> message \<Rightarrow> byte list list \<times> encoder" where
  "Encoder_write enc msg =
     (let pool0 = pool enc;
          offset0 = poolOffset enc;
          bs1 = varint_encode (js_or (js_shl (msg_id msg) 3) (int (msg_type msg)));
          pool1 = write_bytes pool0 offset0 bs1;
          offset1 = offset0 + length bs1;
          bs2 = (if has_payload msg then varint_encode (int (length (the (msg_data msg))))
                 else varint_encode 0);
          pool2 = write_bytes pool1 offset1 bs2;
          offset2 = offset1 + length bs2;
          header = subarray pool2 (poolOffset enc) offset2;
          enc' = (if int POOL_SIZE - int offset2 < 100
                  then \<lparr>pool = allocUnsafe POOL_SIZE, poolOffset = 0\<rparr>
                  else \<lparr>pool = pool2, poolOffset = offset2\<rparr>)
      in if has_payload msg then ([header, the (msg_data msg)], enc')
         else ([header], enc'))"

section \<open>Decoder (decode.ts)\<close>

record messageHeader =
  h_id :: int
  h_type :: nat
  h_offset :: nat
  h_length :: int

record decoder =
  buffer :: "byte list"
  headerInfo :: "messageHeader option"

definition new_Decoder :: decoder where
  "new_Decoder = \<lparr>buffer = [], headerInfo = None\<rparr>"

definition decodeHeader :: "byte list \<Rightarrow> error + messageHeader" where
  "decodeHeader data =
     (case readVarInt data 0 of
        Inl e \<Rightarrow> Inl e
      | Inr (h, offset) \<Rightarrow>
          (case readVarInt data offset of
             Inl e \<Rightarrow> Inl e
           | Inr (len, end) \<Rightarrow>
               let type = nat (js_and h 7)
               in if MessageTypeNames type = None then Inl (InvalidType type)
                  else Inr \<lparr>h_id = js_sar h 3, h_type = type, h_offset = offset + end,
                            h_length = len\<rparr>))"

definition pending_header :: "messageHeader option \<Rightarrow> byte list \<Rightarrow> error + messageHeader" where
  \<comment> \<open>the \<open>try\<close> block of \<open>Decoder.write\<close>: a header kept from an earlier call, or a
      decoding attempt\<close>
  "pending_header hi buf = (case hi of None \<Rightarrow> decodeHeader buf | Some h \<Rightarrow> Inr h)"

definition decoded_message :: "byte list \<Rightarrow> messageHeader \<Rightarrow> message" where
  "decoded_message buf h =
     \<lparr>msg_id = h_id h, msg_type = h_type h,
      msg_data =
        (if h_type h = NEW_STREAM \<or> h_type h = MESSAGE_INITIATOR \<or> h_type h = MESSAGE_RECEIVER
         then Some (sublist buf (h_offset h) (h_offset h + nat (h_length h)))
         else None)\<rparr>"

text \<open>
  The \<open>while\<close> loop of \<open>Decoder.write\<close>. Its \<open>catch (_)\<close> catches whatever
  \<open>_decodeHeader\<close> throws and leaves the loop. The result \<open>None\<close> stands for a loop that
  does not end.
\<close>

partial_function (option) Decoder_loop ::
  "byte list \<Rightarrow> messageHeader option \<Rightarrow> message list \<Rightarrow> (message list \<times> decoder) option" where
  "Decoder_loop buf hi msgs =
     (if length buf \<noteq> 0 then
        (case pending_header hi buf of
           Inl e \<Rightarrow> Some (msgs, \<lparr>buffer = buf, headerInfo = hi\<rparr>)
         | Inr h \<Rightarrow>
             if int (length buf) - int (h_offset h) < h_length h
             then Some (msgs, \<lparr>buffer = buf, headerInfo = Some h\<rparr>)
             else Decoder_loop (consume (h_offset h + nat (h_length h)) buf) None
                    (msgs @ [decoded_message buf h]))
      else Some (msgs, \<lparr>buffer = buf, headerInfo = hi\<rparr>))"

declare Decoder_loop.simps [code]

definition Decoder_write :: "decoder \<Rightarrow> byte list \<Rightarrow> (message list \<times> decoder) option" where
  "Decoder_write dec chunk =
     (if length chunk = 0 then Some ([], dec)
      else Decoder_loop (buffer dec @ chunk) (headerInfo dec) [])"


section \<open>Stream (stream.ts)\<close>

text \<open>
  A stream is the closure state of \<open>createStream\<close> together with what the code does to
  the Node duplex object it wraps: the arguments of \<open>stream.push\<close> in order (\<open>None\<close> for
  \<open>push(null)\<close>) and the first \<open>stream.destroy(err)\<close>. The callbacks \<open>send\<close> and
  \<open>onEnd\<close> belong to the caller, so an operation returns, with the new state, the list of
  the calls it makes to them, in order. In the multiplexer \<open>send\<close> is a wrapper of
  \<open>pushToSink\<close>, which has no \<open>throw\<close> and whose encoder cannot refuse a header word or the
  length of a byte array: a call of \<open>send\<close> returns normally, so the \<open>catch\<close> clauses around
  it (in \<open>onFinal\<close>, \<open>closeWrite\<close> and \<open>start\<close>) are not entered and not modelled.
\<close>

datatype role = Initiator | Receiver

definition Types_MESSAGE :: "role \<Rightarrow> nat" where
  "Types_MESSAGE r = (case r of Initiator \<Rightarrow> MESSAGE_INITIATOR | Receiver \<Rightarrow> MESSAGE_RECEIVER)"

definition Types_CLOSE :: "role \<Rightarrow> nat" where
  "Types_CLOSE r = (case r of Initiator \<Rightarrow> CLOSE_INITIATOR | Receiver \<Rightarrow> CLOSE_RECEIVER)"

definition Types_RESET :: "role \<Rightarrow> nat" where
  "Types_RESET r = (case r of Initiator \<Rightarrow> RESET_INITIATOR | Receiver \<Rightarrow> RESET_RECEIVER)"

definition MAX_MSG_SIZE :: nat where
  \<comment> \<open>Modelled from the spec: \<open>src/restrict-size.ts\<close> is not among the sources; the spec's
      section 6 gives the default of 1 MiB\<close>
  "MAX_MSG_SIZE = 1048576"

datatype effect = Send message | OnEnd "error option"

record stream =
  st_id :: int
  st_type :: role
  streamName :: "byte list"
  maxMsgSize :: nat
  onEnd_given :: bool
  readableLength :: nat
  sourceEnded :: bool
  sinkEnded :: bool
  sinkSunk :: bool
  endErr :: "error option"
  uint8ArrayList :: "byte list"
  abortController :: bool
  resetController :: bool
  closeController :: bool
  readable :: "byte list option list"
  st_destroyed :: "error option option"

definition stream_push :: "byte list option \<Rightarrow> stream \<Rightarrow> stream" where
  \<comment> \<open>\<open>stream.push(chunk)\<close>\<close>
  "stream_push chunk s = s\<lparr>readable := readable s @ [chunk]\<rparr>"

definition stream_destroy :: "error option \<Rightarrow> stream \<Rightarrow> stream" where
  \<comment> \<open>\<open>stream.destroy(err)\<close>: Node keeps the first call and ignores later ones\<close>
  "stream_destroy err s = (if st_destroyed s = None then s\<lparr>st_destroyed := Some err\<rparr> else s)"

definition onSourceEnd :: "error option \<Rightarrow> stream \<Rightarrow> stream \<times> effect list" where
  "onSourceEnd err s =
     (if sourceEnded s then (s, [])
      else
        let s1 = s\<lparr>sourceEnded := True\<rparr>;
            s2 = (if err \<noteq> None \<and> endErr s1 = None then s1\<lparr>endErr := err\<rparr> else s1)
        in if sinkEnded s2 then
             (if onEnd_given s2 then (stream_destroy err s2, [OnEnd (endErr s2)]) else (s2, []))
           else (s2, []))"

definition onSinkEnd :: "error option \<Rightarrow> stream \<Rightarrow> stream \<times> effect list" where
  "onSinkEnd err s =
     (if sinkEnded s then (s, [])
      else
        let s1 = s\<lparr>sinkEnded := True\<rparr>;
            s2 = (if err \<noteq> None \<and> endErr s1 = None then s1\<lparr>endErr := err\<rparr> else s1)
        in if sourceEnded s2 then
             (if onEnd_given s2 then (stream_destroy err s2, [OnEnd (endErr s2)]) else (s2, []))
           else (s2, []))"

definition onFinal :: "stream \<Rightarrow> stream \<times> effect list" where
  "onFinal s =
     (let close_msg = \<lparr>msg_id = st_id s, msg_type = Types_CLOSE (st_type s), msg_data = None\<rparr>;
          (s1, effs) = onSinkEnd None s
      in (s1, Send close_msg # effs))"

definition final :: "stream \<Rightarrow> stream \<times> effect list" where
  \<comment> \<open>the \<open>final\<close> handler, which Node runs for \<open>stream.end()\<close>\<close>
  "final s = onFinal s"

definition read :: "nat \<Rightarrow> stream \<Rightarrow> stream \<times> effect list" where
  \<comment> \<open>the \<open>read(size)\<close> handler, which Node calls when it wants more data\<close>
  "read sz s = (s\<lparr>readableLength := sz\<rparr>, [])"

text \<open>
  The \<open>while\<close> loop of the \<open>write\<close> handler; \<open>None\<close> stands for a loop that does not end
  (it does not when \<open>maxMsgSize\<close> is 0 and bytes are pending).
\<close>

partial_function (option) write_loop :: "stream \<Rightarrow> effect list \<Rightarrow> (stream \<times> effect list) option" where
  "write_loop s effs =
     (if length (uint8ArrayList s) \<noteq> 0 then
        (if length (uint8ArrayList s) \<le> maxMsgSize s then
           Some (s\<lparr>uint8ArrayList := consume (length (uint8ArrayList s)) (uint8ArrayList s)\<rparr>,
                 effs @ [Send \<lparr>msg_id = st_id s, msg_type = Types_MESSAGE (st_type s),
                               msg_data = Some (sublist (uint8ArrayList s) 0
                                                  (length (uint8ArrayList s)))\<rparr>])
         else
           write_loop (s\<lparr>uint8ArrayList := consume (maxMsgSize s) (uint8ArrayList s)\<rparr>)
             (effs @ [Send \<lparr>msg_id = st_id s, msg_type = Types_MESSAGE (st_type s),
                           msg_data = Some (sublist (uint8ArrayList s) 0 (maxMsgSize s))\<rparr>]))
      else Some (s, effs))"

declare write_loop.simps [code]

definition stream_write :: "byte list \<Rightarrow> stream \<Rightarrow> (stream \<times> effect list) option" where
  "stream_write data s = write_loop (s\<lparr>uint8ArrayList := uint8ArrayList s @ data\<rparr>) []"

definition closeRead :: "stream \<Rightarrow> stream \<times> effect list" where
  "closeRead s = (if sourceEnded s then (s, []) else onSourceEnd None (stream_push None s))"

definition closeWrite :: "stream \<Rightarrow> stream \<times> effect list" where
  "closeWrite s =
     (if sinkEnded s then (s, [])
      else
        let s1 = s\<lparr>closeController := True\<rparr>;
            close_msg = \<lparr>msg_id = st_id s, msg_type = Types_CLOSE (st_type s), msg_data = None\<rparr>;
            (s2, effs) = onSinkEnd None s1
        in (s2, Send close_msg # effs))"

definition close :: "stream \<Rightarrow> stream \<times> effect list" where
  "close s =
     (let (s1, effs1) = closeRead s;
          (s2, effs2) = closeWrite s1
      in (s2, effs1 @ effs2))"

definition abort :: "error \<Rightarrow> stream \<Rightarrow> stream \<times> effect list" where
  "abort err s =
     (let (s1, effs1) = onSourceEnd None s;
          s2 = s1\<lparr>abortController := True\<rparr>;
          (s3, effs3) = onSinkEnd (Some err) s2
      in (s3, effs1 @ effs3))"

definition reset :: "stream \<Rightarrow> stream \<times> effect list" where
  "reset s =
     (let err = StreamReset;
          s1 = s\<lparr>resetController := True\<rparr>;
          (s2, effs2) = onSourceEnd (Some err) s1;
          (s3, effs3) = onSinkEnd (Some err) s2
      in (s3, effs2 @ effs3))"

definition sourcePush :: "byte list \<Rightarrow> stream \<Rightarrow> stream \<times> effect list" where
  \<comment> \<open>\<open>[...data].forEach((chunk) => { stream.push(chunk) })\<close>\<close>
  "sourcePush data s = (foldl (\<lambda>s' chunk. stream_push (Some chunk) s') s (bufs data), [])"

definition sourceReadableLength :: "stream \<Rightarrow> nat" where
  "sourceReadableLength s = readableLength s"

definition start :: "stream \<Rightarrow> error + stream \<times> effect list" where
  "start s =
     (if sinkSunk s then Inl DoubleSink
      else
        let s1 = s\<lparr>sinkSunk := True\<rparr>
        in if sinkEnded s1 then Inl SinkEnded
           else Inr (s1, if st_type s1 = Initiator
                         then [Send \<lparr>msg_id = st_id s1, msg_type = NEW_STREAM,
                                     msg_data = Some (streamName s1)\<rparr>]
                         else []))"

function decimal :: "nat \<Rightarrow> byte list" where
  \<comment> \<open>the ASCII digits of \<open>n.toString()\<close>\<close>
  "decimal n = (if n < 10 then [word_of_nat (48 + n)]
                else decimal (n div 10) @ [word_of_nat (48 + n mod 10)])"
  by pat_completeness auto
termination
  by (relation "measure id") auto

declare decimal.simps [simp del]

definition toString :: "int \<Rightarrow> byte list" where
  "toString i = (if i < 0 then 45 # decimal (nat (- i)) else decimal (nat i))"

record options =
  opt_id :: int
  opt_name :: "byte list option"
  opt_onEnd :: bool
  opt_type :: "role option"
  opt_maxMsgSize :: "nat option"

definition createStream :: "options \<Rightarrow> error + stream \<times> effect list" where
  "createStream opts =
     start \<lparr>st_id = opt_id opts,
            st_type = (case opt_type opts of None \<Rightarrow> Initiator | Some t \<Rightarrow> t),
            streamName = (case opt_name opts of None \<Rightarrow> toString (opt_id opts) | Some n \<Rightarrow> n),
            maxMsgSize = (case opt_maxMsgSize opts of None \<Rightarrow> MAX_MSG_SIZE | Some n \<Rightarrow> n),
            onEnd_given = opt_onEnd opts,
            readableLength = 0,
            sourceEnded = False, sinkEnded = False, sinkSunk = False, endErr = None,
            uint8ArrayList = [],
            abortController = False, resetController = False, closeController = False,
            readable = [], st_destroyed = None\<rparr>"


section \<open>Multiplexer (mplex.ts)\<close>

text \<open>
  Modelled from the spec: the package \<open>rate-limiter-flexible\<close> is not among the sources.
  \<open>RateLimiterMemory\<close> with \<open>points\<close> and \<open>duration: 1\<close> counts the points consumed for a
  key during the current second: \<open>consume(key, 1)\<close> adds one and rejects when the count
  exceeds \<open>points\<close>; a timer drops the count when the second is over. The multiplexer
  uses the single key \<open>"new-stream"\<close>, so one counter is kept, and the timer is the
  operation \<open>rateLimiter_expire\<close>: the passing of a second is an event of the model.
\<close>

record rateLimiter =
  rl_points :: nat
  rl_consumed :: nat

definition rateLimiter_consume :: "rateLimiter \<Rightarrow> bool \<times> rateLimiter" where
  \<comment> \<open>the flag says whether the promise resolves\<close>
  "rateLimiter_consume rl =
     (let rl' = rl\<lparr>rl_consumed := rl_consumed rl + 1\<rparr>
      in (\<not> rl_consumed rl' > rl_points rl', rl'))"

definition rateLimiter_expire :: "rateLimiter \<Rightarrow> rateLimiter" where
  "rateLimiter_expire rl = rl\<lparr>rl_consumed := 0\<rparr>"

record mplexInit =
  init_maxMsgSize :: "nat option"
  init_maxInboundStreams :: "nat option"
  init_maxOutboundStreams :: "nat option"
  init_maxStreamBufferSize :: "nat option"
  init_disconnectThreshold :: "nat option"

definition MAX_STREAMS_INBOUND_STREAMS_PER_CONNECTION :: nat where
  "MAX_STREAMS_INBOUND_STREAMS_PER_CONNECTION = 1024"

definition MAX_STREAMS_OUTBOUND_STREAMS_PER_CONNECTION :: nat where
  "MAX_STREAMS_OUTBOUND_STREAMS_PER_CONNECTION = 1024"

definition MAX_STREAM_BUFFER_SIZE :: nat where
  "MAX_STREAM_BUFFER_SIZE = 1024 * 1024 * 4"

definition DISCONNECT_THRESHOLD :: nat where
  "DISCONNECT_THRESHOLD = 5"

text \<open>
  The state of a \<open>MplexStreamMuxer\<close>. The streams it has created are objects that the
  application holds as well, so they live in a store \<open>objs\<close> (a stream's reference is its
  index) and the two JavaScript maps hold references. A map is an association list in
  insertion order with \<open>AList.update\<close> for \<open>set\<close>, \<open>AList.delete\<close> for \<open>delete\<close>,
  \<open>map_of\<close> for \<open>get\<close> and \<open>length\<close> for \<open>size\<close>. \<open>pushed\<close> lists the chunks handed to
  \<open>this.push\<close>, \<open>muxDestroyed\<close> is the error of the first \<open>this.destroy(err)\<close>. The host
  callbacks \<open>onIncomingStream\<close> and \<open>onStreamEnd\<close> and the logger are outside the model.
\<close>

record mux =
  encoder :: encoder
  decoder :: decoder
  streamId :: nat
  objs :: "stream list"
  initiators :: "(int \<times> nat) list"
  receivers :: "(int \<times> nat) list"
  init :: mplexInit
  muxCloseController :: bool
  rateLimiter :: rateLimiter
  pushed :: "byte list list"
  muxDestroyed :: "error option"

definition disconnectThreshold :: "mplexInit \<Rightarrow> nat" where
  \<comment> \<open>\<open>init?.disconnectThreshold ?? DISCONNECT_THRESHOLD\<close>\<close>
  "disconnectThreshold i =
     (case init_disconnectThreshold i of None \<Rightarrow> DISCONNECT_THRESHOLD | Some n \<Rightarrow> n)"

definition new_MplexStreamMuxer :: "mplexInit \<Rightarrow> mux" where
  "new_MplexStreamMuxer i =
     \<lparr>encoder = new_Encoder, decoder = new_Decoder, streamId = 0, objs = [],
      initiators = [], receivers = [], init = i, muxCloseController = False,
      rateLimiter = \<lparr>rl_points = disconnectThreshold i, rl_consumed = 0\<rparr>,
      pushed = [], muxDestroyed = None\<rparr>"

definition maxInboundStreams :: "mux \<Rightarrow> nat" where
  "maxInboundStreams m =
     (case init_maxInboundStreams (init m) of
        None \<Rightarrow> MAX_STREAMS_INBOUND_STREAMS_PER_CONNECTION | Some n \<Rightarrow> n)"

definition maxOutboundStreams :: "mux \<Rightarrow> nat" where
  "maxOutboundStreams m =
     (case init_maxOutboundStreams (init m) of
        None \<Rightarrow> MAX_STREAMS_OUTBOUND_STREAMS_PER_CONNECTION | Some n \<Rightarrow> n)"

definition maxBufferSize :: "mux \<Rightarrow> nat" where
  "maxBufferSize m =
     (case init_maxStreamBufferSize (init m) of None \<Rightarrow> MAX_STREAM_BUFFER_SIZE | Some n \<Rightarrow> n)"

definition mux_destroy :: "error \<Rightarrow> mux \<Rightarrow> mux" where
  \<comment> \<open>\<open>this.destroy(err)\<close>: Node keeps the first call\<close>
  "mux_destroy err m = (if muxDestroyed m = None then m\<lparr>muxDestroyed := Some err\<rparr> else m)"

definition pushToSink :: "mux \<Rightarrow> message \<Rightarrow> mux" where
  "pushToSink m msg =
     (let (chunks, enc') = Encoder_write (encoder m) msg
      in m\<lparr>encoder := enc', pushed := pushed m @ chunks\<rparr>)"

definition registry :: "role \<Rightarrow> mux \<Rightarrow> (int \<times> nat) list" where
  "registry r m = (case r of Initiator \<Rightarrow> initiators m | Receiver \<Rightarrow> receivers m)"

definition registry_update ::
  "role \<Rightarrow> ((int \<times> nat) list \<Rightarrow> (int \<times> nat) list) \<Rightarrow> mux \<Rightarrow> mux" where
  "registry_update r f m =
     (case r of Initiator \<Rightarrow> m\<lparr>initiators := f (initiators m)\<rparr>
              | Receiver \<Rightarrow> m\<lparr>receivers := f (receivers m)\<rparr>)"

text \<open>
  The closures \<open>send\<close> and \<open>onEnd\<close> that \<open>_newStream\<close> hands to a stream of type \<open>r\<close> and
  id \<open>i\<close>, applied to the calls an operation of that stream has made.
\<close>

fun apply_effect :: "role \<Rightarrow> int \<Rightarrow> mux \<Rightarrow> effect \<Rightarrow> mux" where
  "apply_effect r i m (Send msg) = pushToSink m msg"
| "apply_effect r i m (OnEnd e) = registry_update r (AList.delete i) m"

definition apply_effects :: "role \<Rightarrow> int \<Rightarrow> mux \<Rightarrow> effect list \<Rightarrow> mux" where
  "apply_effects r i m effs = foldl (apply_effect r i) m effs"

definition call_stream :: "mux \<Rightarrow> nat \<Rightarrow> (stream \<Rightarrow> stream \<times> effect list) \<Rightarrow> mux" where
  \<comment> \<open>a method call on the stream object \<open>ref\<close>\<close>
  "call_stream m ref f =
     (let s = objs m ! ref;
          (s', effs) = f s
      in apply_effects (st_type s) (st_id s) (m\<lparr>objs := (objs m)[ref := s']\<rparr>) effs)"

definition mux_newStream ::
  "mux \<Rightarrow> int \<Rightarrow> byte list \<Rightarrow> role \<Rightarrow> (error + nat) \<times> mux" where
  \<comment> \<open>\<open>_newStream\<close>; returns the new stream's reference\<close>
  "mux_newStream m i name r =
     (if r = Initiator \<and> length (initiators m) = maxOutboundStreams m
      then (Inl TooManyOutboundStreams, m)
      else if map_of (registry r m) i \<noteq> None then (Inl StreamExists, m)
      else
        (case createStream \<lparr>opt_id = i, opt_name = Some name, opt_onEnd = True,
                             opt_type = Some r, opt_maxMsgSize = init_maxMsgSize (init m)\<rparr> of
           Inl e \<Rightarrow> (Inl e, m)
         | Inr (s, effs) \<Rightarrow>
             let ref = length (objs m);
                 m1 = apply_effects r i (m\<lparr>objs := objs m @ [s]\<rparr>) effs
             in (Inr ref, registry_update r (AList.update i ref) m1)))"

definition newStream :: "mux \<Rightarrow> byte list option \<Rightarrow> (error + nat) \<times> mux" where
  "newStream m name =
     (if muxCloseController m then (Inl MuxerClosed, m)
      else
        let i = streamId m;
            m1 = m\<lparr>streamId := streamId m + 1\<rparr>;
            name' = (case name of None \<Rightarrow> toString (int i) | Some n \<Rightarrow> n)
        in mux_newStream m1 (int i) name' Initiator)"

definition mux_newReceiverStream :: "mux \<Rightarrow> int \<Rightarrow> byte list \<Rightarrow> (error + nat) \<times> mux" where
  \<comment> \<open>\<open>_newReceiverStream\<close>\<close>
  "mux_newReceiverStream m i name = mux_newStream m i name Receiver"

definition streams :: "mux \<Rightarrow> nat list" where
  \<comment> \<open>the getter \<open>streams\<close>: the initiators, then the receivers\<close>
  "streams m = map snd (initiators m) @ map snd (receivers m)"

definition mux_close :: "mux \<Rightarrow> error option \<Rightarrow> mux" where
  \<comment> \<open>\<open>close(err)\<close>\<close>
  "mux_close m err =
     (if muxCloseController m then m
      else
        let m1 = foldl (\<lambda>m' ref. m'\<lparr>objs := (objs m')[ref := stream_destroy err (objs m' ! ref)]\<rparr>)
                   m (streams m)
        in m1\<lparr>muxCloseController := True\<rparr>)"

definition dispatch :: "mux \<Rightarrow> message \<Rightarrow> nat \<Rightarrow> error + mux" where
  \<comment> \<open>the \<open>switch (type)\<close> of \<open>_handleIncoming\<close>, for the stream \<open>ref\<close> found in the map\<close>
  "dispatch m message ref =
     (let type = msg_type message;
          stream = objs m ! ref
      in if type = MESSAGE_INITIATOR \<or> type = MESSAGE_RECEIVER then
           (if sourceReadableLength stream > maxBufferSize m then
              let m1 = pushToSink m
                         \<lparr>msg_id = msg_id message,
                          msg_type = (if type = MESSAGE_INITIATOR then RESET_RECEIVER
                                      else RESET_INITIATOR),
                          msg_data = None\<rparr>
              in Inr (m1\<lparr>objs := (objs m1)[ref := stream_destroy (Some InputBufferFull)
                                                      (objs m1 ! ref)]\<rparr>)
            else
              (case msg_data message of
                 None \<Rightarrow> Inl TypeError
               | Some d \<Rightarrow> Inr (call_stream m ref (sourcePush d))))
         else if type = CLOSE_INITIATOR \<or> type = CLOSE_RECEIVER then
           Inr (call_stream m ref closeRead)
         else if type = RESET_INITIATOR \<or> type = RESET_RECEIVER then
           Inr (call_stream m ref reset)
         else Inr m)"

definition mux_handleIncoming :: "mux \<Rightarrow> message \<Rightarrow> error + mux" where
  \<comment> \<open>\<open>_handleIncoming\<close>; \<open>Inl\<close> is a rejected promise, which leaves the state as it was\<close>
  "mux_handleIncoming m message =
     (let i = msg_id message;
          type = msg_type message
      in if type = NEW_STREAM then
           (if length (receivers m) = maxInboundStreams m then
              let m1 = pushToSink m \<lparr>msg_id = i, msg_type = RESET_RECEIVER, msg_data = None\<rparr>;
                  (ok, rl') = rateLimiter_consume (rateLimiter m1);
                  m2 = m1\<lparr>rateLimiter := rl'\<rparr>
              in if ok then Inr m2 else Inr (mux_destroy TooManyOpenStreams m2)
            else
              (case msg_data message of
                 None \<Rightarrow> Inl TypeError
               | Some d \<Rightarrow>
                   (case mux_newReceiverStream m i d of
                      (Inl e, m') \<Rightarrow> Inl e
                    | (Inr ref, m') \<Rightarrow> Inr m')))
         else
           let list = (if type AND 1 = 1 then initiators m else receivers m)
           in (case map_of list i of
                 None \<Rightarrow> Inr m
               | Some ref \<Rightarrow> dispatch m message ref))"

fun handle_all :: "mux \<Rightarrow> message list \<Rightarrow> error option \<times> mux" where
  \<comment> \<open>the promise chain of \<open>_write\<close>: one message after the other, until one is rejected\<close>
  "handle_all m [] = (None, m)"
| "handle_all m (msg # msgs) =
     (case mux_handleIncoming m msg of
        Inl e \<Rightarrow> (Some e, m)
      | Inr m' \<Rightarrow> handle_all m' msgs)"

definition mux_write :: "mux \<Rightarrow> byte list \<Rightarrow> mux option" where
  \<comment> \<open>\<open>_write\<close>; a \<open>callback(err)\<close> makes Node destroy the multiplexer with \<open>err\<close>\<close>
  "mux_write m chunk =
     (case Decoder_write (decoder m) chunk of
        None \<Rightarrow> None
      | Some (messages, dec') \<Rightarrow>
          (case handle_all (m\<lparr>decoder := dec'\<rparr>) messages of
             (None, m') \<Rightarrow> Some m'
           | (Some e, m') \<Rightarrow> Some (mux_destroy e m')))"

section \<open>Runs of a multiplexer\<close>

text \<open>
  What the application, the transport and the clock can do to a multiplexer and its
  streams, as events; \<open>step\<close> performs one, \<open>run\<close> a list of them.
\<close>

datatype stream_call =
    Write "byte list" | End | Close | CloseRead | CloseWrite | Abort error | Reset
  | SourcePush "byte list" | Read nat | Destroy "error option"

datatype event =
    is_NewStream: NewStream "byte list option"
  | Incoming message
  | TransportWrite "byte list"
  | CloseMux "error option"
  | StreamCall nat stream_call
  | SecondPassed

datatype outcome = is_Opened: Opened nat | Failed error | Done

definition stream_step :: "stream_call \<Rightarrow> stream \<Rightarrow> (stream \<times> effect list) option" where
  "stream_step c s =
     (case c of
        Write d \<Rightarrow> stream_write d s
      | End \<Rightarrow> Some (final s)
      | Close \<Rightarrow> Some (close s)
      | CloseRead \<Rightarrow> Some (closeRead s)
      | CloseWrite \<Rightarrow> Some (closeWrite s)
      | Abort e \<Rightarrow> Some (abort e s)
      | Reset \<Rightarrow> Some (reset s)
      | SourcePush d \<Rightarrow> Some (sourcePush d s)
      | Read n \<Rightarrow> Some (read n s)
      | Destroy e \<Rightarrow> Some (stream_destroy e s, []))"

definition step :: "mux \<Rightarrow> event \<Rightarrow> (outcome \<times> mux) option" where
  "step m ev =
     (case ev of
        NewStream name \<Rightarrow>
          (case newStream m name of
             (Inl e, m') \<Rightarrow> Some (Failed e, m')
           | (Inr ref, m') \<Rightarrow> Some (Opened ref, m'))
      | Incoming msg \<Rightarrow>
          (case mux_handleIncoming m msg of
             Inl e \<Rightarrow> Some (Failed e, m)
           | Inr m' \<Rightarrow> Some (Done, m'))
      | TransportWrite chunk \<Rightarrow> map_option (Pair Done) (mux_write m chunk)
      | CloseMux e \<Rightarrow> Some (Done, mux_close m e)
      | StreamCall ref c \<Rightarrow>
          (if ref < length (objs m) then
             (case stream_step c (objs m ! ref) of
                None \<Rightarrow> None
              | Some r \<Rightarrow> Some (Done, call_stream m ref (\<lambda>_. r)))
           else Some (Done, m))
      | SecondPassed \<Rightarrow> Some (Done, m\<lparr>rateLimiter := rateLimiter_expire (rateLimiter m)\<rparr>))"

fun run :: "mux \<Rightarrow> event list \<Rightarrow> (outcome list \<times> mux) option" where
  "run m [] = Some ([], m)"
| "run m (ev # evs) =
     (case step m ev of
        None \<Rightarrow> None
      | Some (out, m') \<Rightarrow>
          (case run m' evs of
             None \<Rightarrow> None
           | Some (outs, m'') \<Rightarrow> Some (out # outs, m'')))"


section \<open>Vocabulary of the statements\<close>

text \<open>
  \<open>encoder_ok\<close> is the invariant of the encoder's pool: a block of \<open>POOL_SIZE\<close> bytes
  with at least 100 bytes left, as the constructor and every \<open>write\<close> leave it.
  \<open>wire_header\<close> is the two varints of a frame, \<open>valid_message\<close> a message as the spec's
  data model describes it.
\<close>

definition encoder_ok :: "encoder \<Rightarrow> bool" where
  "encoder_ok enc \<longleftrightarrow> length (pool enc) = POOL_SIZE \<and> poolOffset enc + 100 \<le> POOL_SIZE"

definition wire_header :: "message \<Rightarrow> byte list" where
  "wire_header msg =
     varint_encode (js_or (js_shl (msg_id msg) 3) (int (msg_type msg)))
     @ (if has_payload msg then varint_encode (int (length (the (msg_data msg))))
        else varint_encode 0)"

definition valid_message :: "message \<Rightarrow> bool" where
  "valid_message m \<longleftrightarrow>
     0 \<le> msg_id m \<and> msg_type m \<le> 6 \<and>
     (msg_data m \<noteq> None) =
       (msg_type m = NEW_STREAM \<or> msg_type m = MESSAGE_RECEIVER \<or> msg_type m = MESSAGE_INITIATOR)"


text \<open>\<open>message_frame s p\<close> is the \<open>MESSAGE\<close> frame of the stream \<open>s\<close> with payload \<open>p\<close>.\<close>

definition message_frame :: "stream \<Rightarrow> byte list \<Rightarrow> message" where
  "message_frame s p =
     \<lparr>msg_id = st_id s, msg_type = Types_MESSAGE (st_type s), msg_data = Some p\<rparr>"

text \<open>\<open>no_send\<close>: a list of callback calls without a call of \<open>send\<close>.\<close>

definition no_send :: "effect list \<Rightarrow> bool" where
  "no_send es = list_all (\<lambda>e. case e of Send _ \<Rightarrow> False | OnEnd _ \<Rightarrow> True) es"

text \<open>
  States for the examples: a configuration with caps of one stream, a buffer ceiling of 0
  and a threshold of 1; the receiver stream that \<open>createStream\<close> makes for the id 5; the
  multiplexer after it has received \<open>NEW_STREAM\<close> for that id.
\<close>

definition example_init :: mplexInit where
  "example_init =
     \<lparr>init_maxMsgSize = None, init_maxInboundStreams = Some 1, init_maxOutboundStreams = Some 1,
      init_maxStreamBufferSize = Some 0, init_disconnectThreshold = Some 1\<rparr>"

definition example_receiver :: stream where
  "example_receiver =
     \<lparr>st_id = 5, st_type = Receiver, streamName = [], maxMsgSize = MAX_MSG_SIZE,
      onEnd_given = True, readableLength = 0, sourceEnded = False, sinkEnded = False,
      sinkSunk = True, endErr = None, uint8ArrayList = [], abortController = False,
      resetController = False, closeController = False, readable = [], st_destroyed = None\<rparr>"

definition example_mux :: mux where
  "example_mux = (new_MplexStreamMuxer example_init)\<lparr>objs := [example_receiver], receivers := [(5, 0)]\<rparr>"

text \<open>
  \<open>fresh_stream\<close> is the state in which \<open>createStream\<close> returns a stream: nothing ended,
  nothing buffered, the sink started.
\<close>

definition fresh_stream :: "int \<Rightarrow> byte list \<Rightarrow> role \<Rightarrow> nat option \<Rightarrow> stream" where
  "fresh_stream i name r mm =
     \<lparr>st_id = i, st_type = r, streamName = name,
      maxMsgSize = (case mm of None \<Rightarrow> MAX_MSG_SIZE | Some n \<Rightarrow> n),
      onEnd_given = True, readableLength = 0, sourceEnded = False, sinkEnded = False,
      sinkSunk = True, endErr = None, uint8ArrayList = [], abortController = False,
      resetController = False, closeController = False, readable = [], st_destroyed = None\<rparr>"

text \<open>
  \<open>initiators_ok\<close> is the invariant of the outbound registry: it holds no more streams
  than the cap, under ids that the counter has passed. \<open>settles m m'\<close> relates a state
  to a later one in which no outbound stream has been opened: the counter and the
  configuration are the same, \<open>initiators\<close> has lost entries at most, and a closed
  multiplexer is still closed. \<open>failed_attempts\<close> counts, in a run, the calls of
  \<open>newStream\<close> that fail with \<open>TooManyOutboundStreams\<close>.
\<close>

definition initiators_ok :: "mux \<Rightarrow> bool" where
  "initiators_ok m \<longleftrightarrow>
     length (initiators m) \<le> maxOutboundStreams m
     \<and> list_all (\<lambda>e. fst e < int (streamId m)) (initiators m)"

definition settles :: "mux \<Rightarrow> mux \<Rightarrow> bool" where
  "settles m m' \<longleftrightarrow>
     streamId m' = streamId m \<and> init m' = init m
     \<and> length (initiators m') \<le> length (initiators m)
     \<and> set (initiators m') \<subseteq> set (initiators m)
     \<and> (muxCloseController m' \<or> \<not> muxCloseController m)"

definition failed_attempts :: "event list \<Rightarrow> outcome list \<Rightarrow> nat" where
  "failed_attempts evs outs =
     length (filter (\<lambda>p. is_NewStream (fst p) \<and> snd p = Failed TooManyOutboundStreams)
               (zip evs outs))"

text \<open>
  More states for the examples, with an outbound cap of one stream: the multiplexer
  after its first \<open>newStream()\<close>; after a failed second \<open>newStream()\<close> and a \<open>reset()\<close> of
  the first stream; and after a third \<open>newStream()\<close>.
\<close>

definition example_opened :: mux where
  "example_opened =
     (pushToSink
        ((new_MplexStreamMuxer example_init)
           \<lparr>streamId := 1, objs := [fresh_stream 0 [48] Initiator None]\<rparr>)
        \<lparr>msg_id = 0, msg_type = NEW_STREAM, msg_data = Some [48]\<rparr>)
     \<lparr>initiators := [(0, 0)]\<rparr>"

definition example_reset :: mux where
  "example_reset =
     example_opened
       \<lparr>streamId := 2, objs := [fst (reset (fresh_stream 0 [48] Initiator None))],
        initiators := []\<rparr>"

definition example_reopened :: mux where
  "example_reopened =
     (pushToSink
        (example_reset
           \<lparr>streamId := 3,
            objs := [fst (reset (fresh_stream 0 [48] Initiator None)),
                     fresh_stream 2 [50] Initiator None]\<rparr>)
        \<lparr>msg_id = 2, msg_type = NEW_STREAM, msg_data = Some [50]\<rparr>)
     \<lparr>initiators := [(2, 1)]\<rparr>"

section \<open>The codec\<close>

lemmas MessageTypes_defs =
  NEW_STREAM_def MESSAGE_RECEIVER_def MESSAGE_INITIATOR_def CLOSE_RECEIVER_def
  CLOSE_INITIATOR_def RESET_RECEIVER_def RESET_INITIATOR_def

subsection \<open>Bit arithmetic\<close>

lemma bit_128_nat: "bit (128::nat) k \<longleftrightarrow> k = 7"
  using bit_exp_iff [where ?'a = nat, of 7 k] by simp

lemma continuation_byte: "((n AND 255) OR 128) = (128 + n mod 128 :: nat)"
proof -
  have a: "128 + take_bit 7 n = 128 OR take_bit 7 n"
    by (rule disjunctive_add) (simp add: bit_128_nat bit_take_bit_iff)
  have b: "(take_bit 8 n) OR 128 = 128 OR take_bit 7 n"
    by (rule bit_eqI) (auto simp: bit_or_iff bit_take_bit_iff bit_128_nat)
  have c: "n AND 255 = take_bit 8 n"
    using take_bit_eq_mask [of 8 n] by (simp add: mask_eq_exp_minus_1)
  show ?thesis using a b c by (simp add: take_bit_eq_mod)
qed

lemma and_127_nat: "(n::nat) AND 127 = n mod 128"
  using take_bit_eq_mask [of 7 n] by (simp add: mask_eq_exp_minus_1 take_bit_eq_mod)

lemma and_7_int: "(x::int) AND 7 = x mod 8"
  using take_bit_eq_mask [of 3 x] by (simp add: mask_eq_exp_minus_1 take_bit_eq_mod)

lemma or_low3_int:
  assumes "0 \<le> b" "b < 8"
  shows "(a * 8) OR b = a * 8 + (b::int)"
proof -
  have "take_bit 3 b = b" using assms by (simp add: take_bit_int_eq_self)
  then have bb: "bit b k \<Longrightarrow> k < 3" for k
    by (metis bit_take_bit_iff)
  have "push_bit 3 a + b = push_bit 3 a OR b"
    by (rule disjunctive_add) (auto simp: bit_push_bit_iff dest: bb)
  then show ?thesis by (simp add: push_bit_eq_mult)
qed

lemma ToInt32_id: "- (2 ^ 31) \<le> x \<Longrightarrow> x < 2 ^ 31 \<Longrightarrow> ToInt32 x = x"
  by (simp add: ToInt32_def)

lemma header_word:
  assumes "0 \<le> i" "i < 2 ^ 28" "t < 8"
  shows "js_or (js_shl i 3) (int t) = i * 8 + int t"
proof -
  have "js_shl i 3 = i * 8" using assms by (simp add: js_shl_def ToInt32_id)
  moreover have "ToInt32 (i * 8) = i * 8" using assms by (simp add: ToInt32_id)
  moreover have "ToInt32 (int t) = int t" using assms by (simp add: ToInt32_id)
  ultimately show ?thesis using assms by (simp add: js_or_def or_low3_int)
qed

lemma header_type:
  assumes "0 \<le> i" "i < 2 ^ 28" "t < 8"
  shows "nat (js_and (i * 8 + int t) 7) = t"
  using assms by (simp add: js_and_def ToInt32_id and_7_int)

lemma header_id:
  assumes "0 \<le> i" "i < 2 ^ 28" "t < 8"
  shows "js_sar (i * 8 + int t) 3 = i"
  using assms by (simp add: js_sar_def ToInt32_id)

lemma js_shl_small: "x < 128 \<Longrightarrow> s \<le> 21 \<Longrightarrow> js_shl (int x) s = int x * 2 ^ s"
proof -
  assume h: "x < 128" "s \<le> 21"
  have p: "(2::int) ^ s \<le> 2 ^ 21"
    by (rule power_increasing) (use h in simp_all)
  have "int x * 2 ^ s < 128 * 2 ^ 21"
    by (rule mult_less_le_imp_less) (use h p in simp_all)
  then have "int x * 2 ^ s < 2 ^ 31" by simp
  moreover have "- (2 ^ 31) \<le> int x * 2 ^ s"
    by (rule order_trans [of _ 0]) simp_all
  ultimately have b: "ToInt32 (int x * 2 ^ s) = int x * 2 ^ s"
    by (rule ToInt32_id [rotated])
  have a: "ToInt32 (int x) = int x"
    by (rule ToInt32_id) (use h in simp_all)
  show ?thesis by (simp add: js_shl_def a b)
qed

lemma unat_byte: "m < 256 \<Longrightarrow> unat (word_of_nat m :: byte) = m"
  by (simp add: unat_of_nat)

subsection \<open>Varint round trip\<close>

lemma varint_encode_nat_length:
  "0 < k \<Longrightarrow> n < 128 ^ k \<Longrightarrow> length (varint_encode_nat n) \<le> k"
proof (induction n arbitrary: k rule: varint_encode_nat.induct)
  case (1 num)
  show ?case
  proof (cases "num \<ge> 128")
    case True
    then obtain j where j: "k = Suc j" "0 < j"
      using "1.prems" by (cases k; cases "k - 1") auto
    have "num div 128 < 128 ^ j" using "1.prems" j
      by (simp add: less_mult_imp_div_less mult.commute)
    from "1.IH" [OF True j(2) this] show ?thesis
      using True j by (subst varint_encode_nat.simps) simp
  next
    case False
    then show ?thesis using "1.prems" by (subst varint_encode_nat.simps) simp
  qed
qed

lemma varint_encode_nat_nonempty: "varint_encode_nat n \<noteq> []"
  by (subst varint_encode_nat.simps) simp

lemma readVarInt_loop_encode:
  "k \<le> 7 \<Longrightarrow> n < 128 ^ (8 - k) \<Longrightarrow>
   readVarInt_loop (pre @ varint_encode_nat n @ post) res (7 * k) (length pre)
     = Inr (res + int n * 2 ^ (7 * k), length pre + length (varint_encode_nat n))"
proof (induction n arbitrary: k pre res rule: varint_encode_nat.induct)
  case (1 num)
  show ?case
  proof (cases "num \<ge> 128")
    case True
    let ?b = "word_of_nat ((num AND 255) OR 128) :: byte"
    have enc: "varint_encode_nat num = ?b # varint_encode_nat (num div 128)"
      using True by (subst varint_encode_nat.simps) simp
    have ub: "unat ?b = 128 + num mod 128"
      unfolding continuation_byte by (rule unat_byte) simp
    have k6: "k \<le> 6"
    proof (rule ccontr)
      assume "\<not> k \<le> 6"
      then have "k = 7" using "1.prems" by simp
      then show False using "1.prems" True by simp
    qed
    have small: "num div 128 < 128 ^ (8 - Suc k)"
    proof -
      have "8 - k = Suc (8 - Suc k)" using k6 by simp
      then have "num < 128 * 128 ^ (8 - Suc k)" using "1.prems"(2) by simp
      then show ?thesis by (simp add: less_mult_imp_div_less mult.commute)
    qed
    let ?buf = "pre @ varint_encode_nat num @ post"
    let ?res = "res + int (num mod 128) * 2 ^ (7 * k)"
    have tm: "(if 7 * k < 28 then js_shl (int (num mod 128)) (7 * k)
                 else int (num mod 128) * 2 ^ (7 * k)) = int (num mod 128) * 2 ^ (7 * k)"
      by (simp add: js_shl_small)
    have at: "?buf ! length pre = ?b"
      by (simp add: enc)
    have inside: "\<not> (length ?buf \<le> length pre \<or> 49 < 7 * k)"
      using k6 by (simp add: enc)
    have low: "(128 + num mod 128) mod 128 = num mod 128"
      by simp
    have step: "readVarInt_loop ?buf res (7 * k) (length pre)
                  = readVarInt_loop ?buf ?res (7 * k + 7) (length pre + 1)"
      by (subst readVarInt_loop.simps)
        (simp only: inside at ub and_127_nat low tm Let_def if_False if_True le_add1)
    have IH: "readVarInt_loop ((pre @ [?b]) @ varint_encode_nat (num div 128) @ post) ?res
                (7 * Suc k) (length (pre @ [?b]))
              = Inr (?res + int (num div 128) * 2 ^ (7 * Suc k),
                     length (pre @ [?b]) + length (varint_encode_nat (num div 128)))"
      by (rule "1.IH" [OF True _ small]) (use k6 in simp)
    have sum: "int (num mod 128) * 2 ^ (7 * k) + int (num div 128) * 2 ^ (7 * Suc k)
                 = int num * 2 ^ (7 * k)"
    proof -
      have "int num = int (num div 128) * 128 + int (num mod 128)"
        by (metis of_nat_add of_nat_mult of_nat_numeral div_mult_mod_eq)
      then have "int num * 2 ^ (7 * k)
                  = int (num div 128) * (128 * 2 ^ (7 * k)) + int (num mod 128) * 2 ^ (7 * k)"
        by (simp add: algebra_simps)
      moreover have "(128::int) * 2 ^ (7 * k) = 2 ^ (7 * Suc k)"
        by (simp add: power_add)
      ultimately show ?thesis by simp
    qed
    have buf: "(pre @ [?b]) @ varint_encode_nat (num div 128) @ post = ?buf"
      by (simp add: enc)
    have "readVarInt_loop ?buf res (7 * k) (length pre)
            = Inr (?res + int (num div 128) * 2 ^ (7 * Suc k),
                   length (pre @ [?b]) + length (varint_encode_nat (num div 128)))"
    proof -
      have eq1: "7 * k + 7 = 7 * Suc k" by simp
      have eq2: "length pre + 1 = length (pre @ [?b])" by simp
      show ?thesis
        by (rule trans [OF step [unfolded eq1 eq2] IH [unfolded buf]])
    qed
    also have "?res + int (num div 128) * 2 ^ (7 * Suc k) = res + int num * 2 ^ (7 * k)"
      using sum by (simp only: add.assoc)
    also have "length (pre @ [?b]) + length (varint_encode_nat (num div 128))
                 = length pre + length (varint_encode_nat num)"
      by (simp add: enc)
    finally show ?thesis .
  next
    case False
    have enc: "varint_encode_nat num = [word_of_nat num]"
      using False by (subst varint_encode_nat.simps) simp
    have ub: "unat (word_of_nat num :: byte) = num"
      using False by (simp add: unat_of_nat)
    have tm: "(if 7 * k < 28 then js_shl (int num) (7 * k)
                 else int num * 2 ^ (7 * k)) = int num * 2 ^ (7 * k)"
      using False by (simp add: js_shl_small)
    let ?buf = "pre @ varint_encode_nat num @ post"
    have at: "?buf ! length pre = word_of_nat num"
      by (simp add: enc)
    have inside: "\<not> (length ?buf \<le> length pre \<or> 49 < 7 * k)"
      using "1.prems" by (simp add: enc)
    have low: "num mod 128 = num" "\<not> 128 \<le> num"
      using False by simp_all
    have "readVarInt_loop ?buf res (7 * k) (length pre)
            = Inr (res + int num * 2 ^ (7 * k), length pre + 1)"
      by (subst readVarInt_loop.simps)
        (simp only: inside at ub and_127_nat tm low Let_def if_False)
    then show ?thesis by (simp add: enc)
  qed
qed

lemma readVarInt_encode:
  assumes "n < 2 ^ 53"
  shows "readVarInt (pre @ varint_encode_nat n @ post) (length pre)
           = Inr (int n, length (varint_encode_nat n))"
proof -
  have "n < 128 ^ (8 - 0)" using assms by simp
  from readVarInt_loop_encode [OF _ this, of pre post 0]
  show ?thesis by (simp add: readVarInt_def)
qed


subsection \<open>Encoder\<close>

lemma write_bytes_eq:
  "offset + length bs \<le> length out \<Longrightarrow>
   write_bytes out offset bs = take offset out @ bs @ drop (offset + length bs) out"
proof (induction bs arbitrary: out offset)
  case Nil
  then show ?case by simp
next
  case (Cons b bs)
  have lt: "offset < length out" using Cons.prems by simp
  have "write_bytes (out[offset := b]) (Suc offset) bs
          = take (Suc offset) (out[offset := b]) @ bs
              @ drop (Suc offset + length bs) (out[offset := b])"
    by (rule Cons.IH) (use Cons.prems in simp)
  moreover have "take (Suc offset) (out[offset := b]) = take offset out @ [b]"
    using lt by (simp add: take_Suc_conv_app_nth)
  moreover have "drop (Suc offset + length bs) (out[offset := b])
                   = drop (Suc offset + length bs) out"
    by simp
  ultimately show ?case by simp
qed

lemma subarray_two_writes:
  assumes "offset + length bs1 + length bs2 \<le> length out"
  shows "subarray (write_bytes (write_bytes out offset bs1) (offset + length bs1) bs2)
           offset (offset + length bs1 + length bs2) = bs1 @ bs2"
proof -
  have w1: "write_bytes out offset bs1 = take offset out @ bs1 @ drop (offset + length bs1) out"
    by (rule write_bytes_eq) (use assms in simp)
  let ?o1 = "write_bytes out offset bs1"
  have len1: "length ?o1 = length out"
    using assms by (simp add: w1)
  have w2: "write_bytes ?o1 (offset + length bs1) bs2
              = take (offset + length bs1) ?o1 @ bs2 @ drop (offset + length bs1 + length bs2) ?o1"
    by (rule write_bytes_eq) (use assms len1 in simp)
  have t: "take (offset + length bs1) ?o1 = take offset out @ bs1"
    using assms by (simp add: w1)
  show ?thesis
    unfolding w2 t subarray_def using assms by simp
qed


lemma Encoder_write_chunks:
  assumes "encoder_ok enc" "length (wire_header msg) \<le> 100"
  shows "fst (Encoder_write enc msg)
           = (if has_payload msg then [wire_header msg, the (msg_data msg)]
              else [wire_header msg])"
proof -
  let ?bs1 = "varint_encode (js_or (js_shl (msg_id msg) 3) (int (msg_type msg)))"
  let ?bs2 = "if has_payload msg then varint_encode (int (length (the (msg_data msg))))
              else varint_encode 0"
  have fit: "poolOffset enc + length ?bs1 + length ?bs2 \<le> length (pool enc)"
    using assms by (simp add: encoder_ok_def wire_header_def split: if_splits)
  have sub: "subarray (write_bytes (write_bytes (pool enc) (poolOffset enc) ?bs1)
                    (poolOffset enc + length ?bs1) ?bs2)
          (poolOffset enc) (poolOffset enc + length ?bs1 + length ?bs2) = ?bs1 @ ?bs2"
    by (rule subarray_two_writes [OF fit])
  show ?thesis
  proof (cases "has_payload msg")
    case True
    with sub show ?thesis by (simp add: Encoder_write_def Let_def wire_header_def)
  next
    case False
    with sub show ?thesis by (simp add: Encoder_write_def Let_def wire_header_def)
  qed
qed

lemma varint_encode_nonneg: "varint_encode (int n) = varint_encode_nat n"
  by (simp add: varint_encode_def)

lemma varint_encode_zero: "varint_encode 0 = varint_encode_nat 0"
  by (simp add: varint_encode_def)

lemma decodeHeader_wire:
  assumes "0 \<le> i" "i < 2 ^ 28" "t \<le> 6" "n < 2 ^ 53"
  shows "decodeHeader (varint_encode_nat (nat (i * 8 + int t)) @ varint_encode_nat n @ post)
           = Inr \<lparr>h_id = i, h_type = t,
                   h_offset = length (varint_encode_nat (nat (i * 8 + int t)))
                              + length (varint_encode_nat n),
                   h_length = int n\<rparr>"
proof -
  let ?h = "nat (i * 8 + int t)"
  have hb: "?h < 2 ^ 53"
  proof -
    have "i * 8 + int t < 2 ^ 31" using assms by simp
    then have "i * 8 + int t < 2 ^ 53" by simp
    then show ?thesis using assms(1) by (simp add: nat_less_iff)
  qed
  have ih: "int ?h = i * 8 + int t" using assms by simp
  have r1: "readVarInt (varint_encode_nat ?h @ varint_encode_nat n @ post) 0
              = Inr (i * 8 + int t, length (varint_encode_nat ?h))"
    using readVarInt_encode [OF hb, of "[]" "varint_encode_nat n @ post"] ih by simp
  have r2: "readVarInt (varint_encode_nat ?h @ varint_encode_nat n @ post)
              (length (varint_encode_nat ?h)) = Inr (int n, length (varint_encode_nat n))"
    by (rule readVarInt_encode [OF assms(4)])
  have t8: "t < 8" using assms by simp
  have names: "MessageTypeNames t \<noteq> None"
    using assms by (simp add: MessageTypeNames_def)
  show ?thesis
    using names
    by (simp add: decodeHeader_def r1 r2 Let_def header_type [OF assms(1,2) t8]
          header_id [OF assms(1,2) t8])
qed

text \<open>
  Claim C1, as amended. For every message whose id is an integer with \<open>0 \<le> id < 2^28\<close>,
  whose type is one of the seven types and whose data is present exactly for the three
  data-bearing types (with a length that a JavaScript number holds exactly), feeding the
  concatenation of the chunks of \<open>Encoder.write\<close> to a fresh decoder's \<open>write\<close> returns
  exactly that one message, with equal data bytes, and leaves the decoder empty. The
  encoder may be in any state that a sequence of earlier calls of \<open>write\<close> leaves.
\<close>

theorem codec_round_trip:
  assumes valid: "valid_message m"
    and small: "msg_id m < 2 ^ 28"
    and len: "\<And>d. msg_data m = Some d \<Longrightarrow> length d < 2 ^ 53"
    and enc: "encoder_ok enc"
  shows "Decoder_write new_Decoder (concat (fst (Encoder_write enc m))) = Some ([m], new_Decoder)"
proof -
  let ?i = "msg_id m" and ?t = "msg_type m"
  define d where "d = (case msg_data m of None \<Rightarrow> [] | Some x \<Rightarrow> x)"
  define n where "n = (if has_payload m then length d else 0)"
  let ?h1 = "varint_encode_nat (nat (?i * 8 + int ?t))"
  let ?h2 = "varint_encode_nat n"
  have i0: "0 \<le> ?i" and t6: "?t \<le> 6" and t8: "?t < 8"
    using valid by (simp_all add: valid_message_def)
  have pay: "has_payload m \<longleftrightarrow> msg_data m \<noteq> None"
    using valid by (auto simp: valid_message_def has_payload_def)
  have dlen: "length d < 2 ^ 53"
    using len by (cases "msg_data m") (simp_all add: d_def)
  have nb: "n < 2 ^ 53" using dlen by (simp add: n_def)
  have hw: "js_or (js_shl ?i 3) (int ?t) = ?i * 8 + int ?t"
    by (rule header_word [OF i0 small t8])
  have wh: "wire_header m = ?h1 @ ?h2"
  proof -
    have "varint_encode (?i * 8 + int ?t) = ?h1"
      using i0 by (simp add: varint_encode_def)
    then show ?thesis
      by (cases "msg_data m") (simp_all add: wire_header_def hw n_def d_def pay
            varint_encode_nonneg varint_encode_zero)
  qed
  have l1: "length ?h1 \<le> 5"
  proof (rule varint_encode_nat_length)
    have "?i * 8 + int ?t < 2 ^ 31" using small t8 by simp
    then have "?i * 8 + int ?t < 128 ^ 5" by simp
    then show "nat (?i * 8 + int ?t) < 128 ^ 5" using i0 by (simp add: nat_less_iff)
  qed simp
  have l2: "length ?h2 \<le> 8"
    by (rule varint_encode_nat_length) (use nb in simp_all)
  have chunks: "concat (fst (Encoder_write enc m)) = ?h1 @ ?h2 @ (if has_payload m then d else [])"
  proof -
    have "length (wire_header m) \<le> 100" using l1 l2 by (simp add: wh)
    from Encoder_write_chunks [OF enc this] show ?thesis
      by (cases "msg_data m") (simp_all add: wh d_def pay)
  qed
  let ?pd = "if has_payload m then d else []"
  let ?buf = "?h1 @ ?h2 @ ?pd"
  let ?hdr = "\<lparr>h_id = ?i, h_type = ?t, h_offset = length ?h1 + length ?h2, h_length = int n\<rparr>"
  have dh: "decodeHeader ?buf = Inr ?hdr"
    by (rule decodeHeader_wire [OF i0 small t6 nb])
  have ne: "length ?buf \<noteq> 0"
    by (simp add: varint_encode_nat_nonempty)
  have pdlen: "length ?pd = n"
    by (simp add: n_def)
  have dm: "decoded_message ?buf ?hdr = m"
  proof (cases "has_payload m")
    case True
    have "sublist (?h1 @ ?h2 @ d) (length ?h1 + length ?h2) (length ?h1 + length ?h2 + n) = d"
      using True by (simp add: sublist_def n_def)
    moreover have "msg_data m = Some d"
      using True by (cases "msg_data m") (simp_all add: pay d_def)
    moreover have "?t = NEW_STREAM \<or> ?t = MESSAGE_INITIATOR \<or> ?t = MESSAGE_RECEIVER"
      using True by (simp add: has_payload_def)
    ultimately show ?thesis
      using True by (cases m) (simp add: decoded_message_def)
  next
    case False
    have "msg_data m = None"
      using False by (simp add: pay)
    moreover have "\<not> (?t = NEW_STREAM \<or> ?t = MESSAGE_INITIATOR \<or> ?t = MESSAGE_RECEIVER)"
      using False valid pay by (simp add: valid_message_def)
    ultimately show ?thesis
      using False by (cases m) (simp add: decoded_message_def)
  qed
  have consumed: "consume (h_offset ?hdr + nat (h_length ?hdr)) ?buf = []"
    using pdlen by (simp add: consume_def)
  have enough: "\<not> int (length ?buf) - int (h_offset ?hdr) < h_length ?hdr"
    using pdlen by simp
  have first: "Decoder_loop ?buf None [] = Decoder_loop [] None [m]"
    by (subst Decoder_loop.simps)
      (simp only: ne pending_header_def option.case dh sum.case enough consumed dm
         if_True if_False append_Nil simp_thms)
  have second: "Decoder_loop [] None [m] = Some ([m], new_Decoder)"
    by (subst Decoder_loop.simps) (simp add: new_Decoder_def)
  show ?thesis
    unfolding chunks Decoder_write_def
    using ne first second by (simp add: new_Decoder_def)
qed

lemma encoder_ok_new: "encoder_ok new_Encoder"
  by (simp add: encoder_ok_def new_Encoder_def allocUnsafe_def POOL_SIZE_def)

lemma length_write_bytes [simp]: "length (write_bytes out offset bs) = length out"
  by (induction bs arbitrary: out offset) simp_all

lemma encoder_ok_write: "encoder_ok enc \<Longrightarrow> encoder_ok (snd (Encoder_write enc msg))"
  by (auto simp: encoder_ok_def Encoder_write_def Let_def allocUnsafe_def POOL_SIZE_def)

theorem codec_round_trip_witness:
  "valid_message \<lparr>msg_id = 17, msg_type = 0, msg_data = Some [0x31, 0x37]\<rparr>
   \<and> encoder_ok new_Encoder
   \<and> Decoder_write new_Decoder
         (concat (fst (Encoder_write new_Encoder
            \<lparr>msg_id = 17, msg_type = 0, msg_data = Some [0x31, 0x37]\<rparr>)))
       = Some ([\<lparr>msg_id = 17, msg_type = 0, msg_data = Some [0x31, 0x37]\<rparr>], new_Decoder)"
proof -
  let ?m = "\<lparr>msg_id = 17, msg_type = 0, msg_data = Some [0x31, 0x37 :: byte]\<rparr>"
  have v: "valid_message ?m"
    by (simp add: valid_message_def NEW_STREAM_def)
  have s: "msg_id ?m < 2 ^ 28" by simp
  have l: "\<And>d. msg_data ?m = Some d \<Longrightarrow> length d < 2 ^ 53" by auto
  from codec_round_trip [OF v s l encoder_ok_new] v encoder_ok_new show ?thesis by simp
qed

text \<open>
  Claim C1 as stated fails for ids of \<open>2^28\<close> and more: \<open>msg.id << 3\<close> is a 32-bit
  shift. For the id \<open>2^29 = 536870912\<close> the shifted id is 0, the frame on the wire is
  that of id 0, and the decoder returns a message with id 0.
\<close>

theorem codec_round_trip_counterexample:
  "valid_message \<lparr>msg_id = 536870912, msg_type = 0, msg_data = Some [1]\<rparr>
   \<and> Decoder_write new_Decoder
         (concat (fst (Encoder_write new_Encoder
            \<lparr>msg_id = 536870912, msg_type = 0, msg_data = Some [1]\<rparr>)))
       = Some ([\<lparr>msg_id = 0, msg_type = 0, msg_data = Some [1]\<rparr>], new_Decoder)
   \<and> Decoder_write new_Decoder
         (concat (fst (Encoder_write new_Encoder
            \<lparr>msg_id = 536870912, msg_type = 0, msg_data = Some [1]\<rparr>)))
       \<noteq> Some ([\<lparr>msg_id = 536870912, msg_type = 0, msg_data = Some [1]\<rparr>], new_Decoder)"
proof -
  let ?big = "\<lparr>msg_id = 536870912, msg_type = 0, msg_data = Some [1 :: byte]\<rparr>"
  let ?zero = "\<lparr>msg_id = 0, msg_type = 0, msg_data = Some [1 :: byte]\<rparr>"
  have v: "valid_message ?big"
    by (simp add: valid_message_def NEW_STREAM_def)
  have wh: "wire_header ?big = [0, 1]"
    by (simp add: wire_header_def has_payload_def NEW_STREAM_def js_or_def js_shl_def
          ToInt32_def varint_encode_def varint_encode_nat.simps)
  have chunks: "concat (fst (Encoder_write new_Encoder ?big)) = [0, 1, 1]"
    by (simp add: Encoder_write_chunks [OF encoder_ok_new] wh has_payload_def NEW_STREAM_def)
  have dh: "decodeHeader [0, 1, 1]
              = Inr \<lparr>h_id = 0, h_type = 0, h_offset = 2, h_length = 1\<rparr>"
    by (simp add: decodeHeader_def readVarInt_def readVarInt_loop.simps js_shl_def ToInt32_def
          js_and_def js_sar_def MessageTypeNames_def)
  have res: "Decoder_write new_Decoder (concat (fst (Encoder_write new_Encoder ?big)))
               = Some ([?zero], new_Decoder)"
    unfolding chunks
    by (subst Decoder_write_def, simp add: new_Decoder_def, subst Decoder_loop.simps,
        simp add: pending_header_def dh decoded_message_def sublist_def consume_def
          NEW_STREAM_def, subst Decoder_loop.simps, simp)
  have ne: "Some ([?zero], new_Decoder) \<noteq> Some ([?big], new_Decoder)"
    by simp
  show ?thesis
    unfolding res using v ne by (intro conjI) simp_all
qed

text \<open>
  Claim C2 (the code departs from it). A header whose type is 7 makes \<open>_decodeHeader\<close>
  throw \<open>Invalid type received\<close>, but the \<open>catch (_)\<close> of \<open>Decoder.write\<close>, written for
  a header that is still incomplete, catches that error too: for the two bytes \<open>0f 00\<close>
  (id 1, type 7, length 0) \<open>write\<close> returns no message and no error and keeps the bytes,
  as it does for short input; a complete frame written afterwards (\<open>88 01 00\<close>) is not
  delivered either, since the same header is decoded again.
\<close>

theorem invalid_type_is_swallowed:
  "decodeHeader [0x0F, 0] = Inl (InvalidType 7)
   \<and> Decoder_write new_Decoder [0x0F, 0]
       = Some ([], \<lparr>buffer = [0x0F, 0], headerInfo = None\<rparr>)
   \<and> Decoder_write \<lparr>buffer = [0x0F, 0], headerInfo = None\<rparr> [0x88, 1, 0]
       = Some ([], \<lparr>buffer = [0x0F, 0, 0x88, 1, 0], headerInfo = None\<rparr>)"
proof -
  have dh: "decodeHeader [0x0F, 0] = Inl (InvalidType 7)"
    by (simp add: decodeHeader_def readVarInt_def readVarInt_loop.simps js_shl_def ToInt32_def
          js_and_def and_7_int MessageTypeNames_def)
  have dh': "decodeHeader [0x0F, 0, 0x88, 1, 0] = Inl (InvalidType 7)"
    by (simp add: decodeHeader_def readVarInt_def readVarInt_loop.simps js_shl_def ToInt32_def
          js_and_def and_7_int MessageTypeNames_def)
  have first: "Decoder_write new_Decoder [0x0F, 0]
          = Some ([], \<lparr>buffer = [0x0F, 0], headerInfo = None\<rparr>)"
    by (subst Decoder_write_def, simp add: new_Decoder_def, subst Decoder_loop.simps)
      (simp add: pending_header_def dh)
  have later: "Decoder_write \<lparr>buffer = [0x0F, 0], headerInfo = None\<rparr> [0x88, 1, 0]
          = Some ([], \<lparr>buffer = [0x0F, 0, 0x88, 1, 0], headerInfo = None\<rparr>)"
    by (subst Decoder_write_def, simp, subst Decoder_loop.simps)
      (simp add: pending_header_def dh')
  from dh first later show ?thesis by simp
qed

subsection \<open>Frames without data\<close>

lemma varint_encode_0: "varint_encode 0 = [0]"
  by (simp add: varint_encode_def varint_encode_nat.simps)

lemma control_frame_chunks:
  assumes "encoder_ok enc" "0 \<le> i" "i < 2 ^ 28" "t \<le> 6"
  shows "fst (Encoder_write enc \<lparr>msg_id = i, msg_type = t, msg_data = None\<rparr>)
           = [varint_encode (i * 8 + int t) @ [0]]"
proof -
  let ?msg = "\<lparr>msg_id = i, msg_type = t, msg_data = None\<rparr>"
  have np: "\<not> has_payload ?msg"
    by (simp add: has_payload_def)
  have hw: "js_or (js_shl i 3) (int t) = i * 8 + int t"
    by (rule header_word) (use assms in simp_all)
  have wh: "wire_header ?msg = varint_encode (i * 8 + int t) @ [0]"
    using np by (simp add: wire_header_def hw varint_encode_0)
  have "length (varint_encode_nat (nat (i * 8 + int t))) \<le> 5"
  proof (rule varint_encode_nat_length)
    have "i * 8 + int t < 2 ^ 31" using assms by simp
    then have "i * 8 + int t < 128 ^ 5" by simp
    then show "nat (i * 8 + int t) < 128 ^ 5" using assms(2) by (simp add: nat_less_iff)
  qed simp
  then have "length (wire_header ?msg) \<le> 100"
    using assms(2) by (simp add: wh varint_encode_def)
  from Encoder_write_chunks [OF assms(1) this] show ?thesis
    using np by (simp add: wh)
qed

lemma control_frame_decodes:
  assumes "0 \<le> i" "i < 2 ^ 28" "3 \<le> t" "t \<le> 6"
  shows "Decoder_write new_Decoder (varint_encode (i * 8 + int t) @ [0])
           = Some ([\<lparr>msg_id = i, msg_type = t, msg_data = None\<rparr>], new_Decoder)"
proof -
  let ?h1 = "varint_encode_nat (nat (i * 8 + int t))"
  let ?buf = "?h1 @ varint_encode_nat 0 @ []"
  let ?hdr = "\<lparr>h_id = i, h_type = t, h_offset = length ?h1 + length (varint_encode_nat 0),
               h_length = int 0\<rparr>"
  have z: "varint_encode_nat 0 = [0]"
    by (simp add: varint_encode_nat.simps)
  have frame: "varint_encode (i * 8 + int t) @ [0] = ?buf"
    using assms(1) by (simp add: varint_encode_def z)
  have dh: "decodeHeader ?buf = Inr ?hdr"
    by (rule decodeHeader_wire [OF assms(1,2,4)]) simp
  have ne: "length ?buf \<noteq> 0"
    by (simp add: varint_encode_nat_nonempty)
  have dm: "decoded_message ?buf ?hdr = \<lparr>msg_id = i, msg_type = t, msg_data = None\<rparr>"
    using assms(3) by (simp add: decoded_message_def MessageTypes_defs)
  have consumed: "consume (h_offset ?hdr + nat (h_length ?hdr)) ?buf = []"
    by (simp add: consume_def)
  have enough: "\<not> int (length ?buf) - int (h_offset ?hdr) < h_length ?hdr"
    by simp
  have first: "Decoder_loop ?buf None []
                 = Decoder_loop [] None [\<lparr>msg_id = i, msg_type = t, msg_data = None\<rparr>]"
    by (subst Decoder_loop.simps)
      (simp only: ne pending_header_def option.case dh sum.case enough consumed dm
         if_True if_False append_Nil simp_thms)
  have second: "Decoder_loop [] None [\<lparr>msg_id = i, msg_type = t, msg_data = None\<rparr>]
                  = Some ([\<lparr>msg_id = i, msg_type = t, msg_data = None\<rparr>], new_Decoder)"
    by (subst Decoder_loop.simps) (simp add: new_Decoder_def)
  show ?thesis
    unfolding frame Decoder_write_def
    using ne first second by (simp add: new_Decoder_def)
qed

section \<open>The stream\<close>

subsection \<open>Fragmentation of writes\<close>

lemma ceil_div_step:
  assumes "0 < M" "M < n"
  shows "(n - M + M - 1) div M + 1 = (n + M - 1) div (M::nat)"
proof -
  have a: "n + M - 1 = (n - 1) + M" using assms by linarith
  have b: "n - M + M - 1 = n - 1" using assms by linarith
  have "((n - 1) + M) div M = (n - 1) div M + 1"
    using assms by (simp only: div_add_self2)
  then show ?thesis unfolding a b by simp
qed

lemma write_loop_frames:
  assumes "0 < maxMsgSize s"
  shows "\<exists>ps. write_loop s effs
                = Some (s\<lparr>uint8ArrayList := []\<rparr>, effs @ map (\<lambda>p. Send (message_frame s p)) ps)
            \<and> concat ps = uint8ArrayList s
            \<and> length ps = (length (uint8ArrayList s) + maxMsgSize s - 1) div maxMsgSize s
            \<and> list_all (\<lambda>p. length p \<le> maxMsgSize s) ps
            \<and> list_all (\<lambda>p. length p = maxMsgSize s) (butlast ps)"
  using assms
proof (induction "length (uint8ArrayList s)" arbitrary: s effs rule: less_induct)
  case less
  let ?buf = "uint8ArrayList s" and ?M = "maxMsgSize s"
  show ?case
  proof (cases "?buf = []")
    case True
    have "write_loop s effs = Some (s\<lparr>uint8ArrayList := []\<rparr>, effs)"
      using True by (subst write_loop.simps) simp
    then show ?thesis using True less.prems
      by (intro exI [of _ "[]"]) simp
  next
    case False
    show ?thesis
    proof (cases "length ?buf \<le> ?M")
      case True
      have "write_loop s effs
              = Some (s\<lparr>uint8ArrayList := []\<rparr>, effs @ [Send (message_frame s ?buf)])"
        using True False
        by (subst write_loop.simps) (simp add: message_frame_def sublist_def consume_def)
      moreover have "(length ?buf + ?M - 1) div ?M = 1"
      proof -
        obtain k where k: "length ?buf = Suc k"
          using False by (cases ?buf) auto
        have "(length ?buf + ?M - 1) div ?M = (k + ?M) div ?M"
          by (simp add: k)
        also have "\<dots> = k div ?M + 1"
          using less.prems by (simp only: div_add_self2)
        also have "k div ?M = 0"
          using True k by simp
        finally show ?thesis by simp
      qed
      ultimately show ?thesis using True
        by (intro exI [of _ "[?buf]"]) simp
    next
      case big: False
      let ?s' = "s\<lparr>uint8ArrayList := drop ?M ?buf\<rparr>"
      let ?e' = "effs @ [Send (message_frame s (take ?M ?buf))]"
      have unfold: "write_loop s effs = write_loop ?s' ?e'"
        using big False
        by (subst write_loop.simps) (simp add: message_frame_def sublist_def consume_def)
      have smaller: "length (uint8ArrayList ?s') < length ?buf"
        using big less.prems by simp
      have pos: "0 < maxMsgSize ?s'" using less.prems by simp
      from less.hyps [OF smaller pos, of ?e']
      obtain ps where ps:
        "write_loop ?s' ?e' = Some (?s'\<lparr>uint8ArrayList := []\<rparr>,
            ?e' @ map (\<lambda>p. Send (message_frame ?s' p)) ps)"
        "concat ps = drop ?M ?buf"
        "length ps = (length (drop ?M ?buf) + ?M - 1) div ?M"
        "list_all (\<lambda>p. length p \<le> ?M) ps"
        "list_all (\<lambda>p. length p = ?M) (butlast ps)"
        by auto
      let ?ps = "take ?M ?buf # ps"
      have fr: "message_frame ?s' = message_frame s"
        by (rule ext) (simp add: message_frame_def)
      have 1: "write_loop s effs
                 = Some (s\<lparr>uint8ArrayList := []\<rparr>, effs @ map (\<lambda>p. Send (message_frame s p)) ?ps)"
        using unfold ps(1) by (simp add: fr)
      have 2: "concat ?ps = ?buf" using ps(2) by simp
      have 3: "length ?ps = (length ?buf + ?M - 1) div ?M"
        using ps(3) ceil_div_step [of ?M "length ?buf"] big less.prems by simp
      have 4: "list_all (\<lambda>p. length p \<le> ?M) ?ps" using ps(4) by simp
      have "ps \<noteq> []"
      proof
        assume "ps = []"
        then have "drop ?M ?buf = []" using ps(2) by simp
        then show False using big by simp
      qed
      then have 5: "list_all (\<lambda>p. length p = ?M) (butlast ?ps)"
        using ps(5) big by simp
      from 1 2 3 4 5 show ?thesis by blast
    qed
  qed
qed

text \<open>
  Claim C3. A stream whose pending outbound list is empty and whose \<open>maxMsgSize\<close> is
  \<open>M > 0\<close> handles a write of \<open>N\<close> bytes by exactly \<open>\<lceil>N/M\<rceil>\<close> calls of \<open>send\<close>, in
  order and with nothing else, each with a \<open>MESSAGE\<close> frame of the stream's own id and
  role; every payload has at most \<open>M\<close> bytes, all but the last exactly \<open>M\<close>, and the
  payloads concatenated are the bytes written. The write returns and leaves the pending
  list empty. (With \<open>M = 0\<close> the quotient is undefined and the loop does not end.)
\<close>

theorem fragmentation_law:
  assumes "0 < maxMsgSize s" and "uint8ArrayList s = []"
  shows "\<exists>ps. stream_write data s = Some (s, map (\<lambda>p. Send (message_frame s p)) ps)
            \<and> length ps = (length data + maxMsgSize s - 1) div maxMsgSize s
            \<and> list_all (\<lambda>p. length p \<le> maxMsgSize s) ps
            \<and> list_all (\<lambda>p. length p = maxMsgSize s) (butlast ps)
            \<and> concat ps = data"
proof -
  let ?s = "s\<lparr>uint8ArrayList := uint8ArrayList s @ data\<rparr>"
  have "0 < maxMsgSize ?s" using assms by simp
  from write_loop_frames [OF this, of "[]"]
  obtain ps where ps:
    "write_loop ?s [] = Some (?s\<lparr>uint8ArrayList := []\<rparr>, map (\<lambda>p. Send (message_frame ?s p)) ps)"
    "concat ps = uint8ArrayList ?s"
    "length ps = (length (uint8ArrayList ?s) + maxMsgSize ?s - 1) div maxMsgSize ?s"
    "list_all (\<lambda>p. length p \<le> maxMsgSize ?s) ps"
    "list_all (\<lambda>p. length p = maxMsgSize ?s) (butlast ps)"
    by auto
  have fr: "message_frame ?s = message_frame s"
    by (rule ext) (simp add: message_frame_def)
  have st: "?s\<lparr>uint8ArrayList := []\<rparr> = s" using assms(2) by simp
  show ?thesis
    using ps assms(2) unfolding stream_write_def fr st
    by (intro exI [of _ ps]) simp
qed

theorem fragmentation_law_witness:
  "0 < maxMsgSize
         \<lparr>st_id = 12, st_type = Initiator, streamName = [49, 50], maxMsgSize = 4,
          onEnd_given = True, readableLength = 0, sourceEnded = False, sinkEnded = False,
          sinkSunk = True, endErr = None, uint8ArrayList = [], abortController = False,
          resetController = False, closeController = False, readable = [],
          st_destroyed = None\<rparr>
   \<and> (\<exists>ps. stream_write [1, 2, 3, 4, 5, 6, 7, 8, 9]
               \<lparr>st_id = 12, st_type = Initiator, streamName = [49, 50], maxMsgSize = 4,
                onEnd_given = True, readableLength = 0, sourceEnded = False, sinkEnded = False,
                sinkSunk = True, endErr = None, uint8ArrayList = [], abortController = False,
                resetController = False, closeController = False, readable = [],
                st_destroyed = None\<rparr>
             = Some (\<lparr>st_id = 12, st_type = Initiator, streamName = [49, 50], maxMsgSize = 4,
                      onEnd_given = True, readableLength = 0, sourceEnded = False,
                      sinkEnded = False, sinkSunk = True, endErr = None, uint8ArrayList = [],
                      abortController = False, resetController = False,
                      closeController = False, readable = [], st_destroyed = None\<rparr>,
                     map (\<lambda>p. Send \<lparr>msg_id = 12, msg_type = MESSAGE_INITIATOR,
                                        msg_data = Some p\<rparr>) ps)
          \<and> length ps = 3
          \<and> list_all (\<lambda>p. length p \<le> 4) ps
          \<and> list_all (\<lambda>p. length p = 4) (butlast ps)
          \<and> concat ps = [1, 2, 3, 4, 5, 6, 7, 8, 9])"
  using fragmentation_law [of
      "\<lparr>st_id = 12, st_type = Initiator, streamName = [49, 50], maxMsgSize = 4,
        onEnd_given = True, readableLength = 0, sourceEnded = False, sinkEnded = False,
        sinkSunk = True, endErr = None, uint8ArrayList = [], abortController = False,
        resetController = False, closeController = False, readable = [],
        st_destroyed = None\<rparr>" "[1, 2, 3, 4, 5, 6, 7, 8, 9]"]
  by (simp add: message_frame_def Types_MESSAGE_def)

section \<open>The multiplexer\<close>

subsection \<open>What the callbacks of a stream touch\<close>

lemma pushToSink_fields [simp]:
  "objs (pushToSink m msg) = objs m"
  "initiators (pushToSink m msg) = initiators m"
  "receivers (pushToSink m msg) = receivers m"
  "streamId (pushToSink m msg) = streamId m"
  "init (pushToSink m msg) = init m"
  "muxCloseController (pushToSink m msg) = muxCloseController m"
  "rateLimiter (pushToSink m msg) = rateLimiter m"
  "muxDestroyed (pushToSink m msg) = muxDestroyed m"
  "decoder (pushToSink m msg) = decoder m"
  "pushed (pushToSink m msg) = pushed m @ fst (Encoder_write (encoder m) msg)"
  by (simp_all add: pushToSink_def split_beta)

lemma registry_update_fields [simp]:
  "objs (registry_update r f m) = objs m"
  "streamId (registry_update r f m) = streamId m"
  "init (registry_update r f m) = init m"
  "muxCloseController (registry_update r f m) = muxCloseController m"
  "rateLimiter (registry_update r f m) = rateLimiter m"
  "muxDestroyed (registry_update r f m) = muxDestroyed m"
  "decoder (registry_update r f m) = decoder m"
  "encoder (registry_update r f m) = encoder m"
  "pushed (registry_update r f m) = pushed m"
  by (simp_all add: registry_update_def split: role.split)

lemma registry_update_maps [simp]:
  "initiators (registry_update r f m) = (if r = Initiator then f (initiators m) else initiators m)"
  "receivers (registry_update r f m) = (if r = Receiver then f (receivers m) else receivers m)"
  by (simp_all add: registry_update_def split: role.split)

lemma apply_effects_Nil [simp]: "apply_effects r i m [] = m"
  by (simp add: apply_effects_def)

lemma apply_effects_Cons [simp]:
  "apply_effects r i m (e # es) = apply_effects r i (apply_effect r i m e) es"
  by (simp add: apply_effects_def)

lemma apply_effects_append [simp]:
  "apply_effects r i m (es @ es') = apply_effects r i (apply_effects r i m es) es'"
  by (simp add: apply_effects_def)

lemma apply_effect_fields [simp]:
  "objs (apply_effect r i m e) = objs m"
  "streamId (apply_effect r i m e) = streamId m"
  "init (apply_effect r i m e) = init m"
  "muxCloseController (apply_effect r i m e) = muxCloseController m"
  "rateLimiter (apply_effect r i m e) = rateLimiter m"
  "muxDestroyed (apply_effect r i m e) = muxDestroyed m"
  "decoder (apply_effect r i m e) = decoder m"
  by (cases e; simp)+

lemma apply_effects_fields [simp]:
  "objs (apply_effects r i m es) = objs m"
  "streamId (apply_effects r i m es) = streamId m"
  "init (apply_effects r i m es) = init m"
  "muxCloseController (apply_effects r i m es) = muxCloseController m"
  "rateLimiter (apply_effects r i m es) = rateLimiter m"
  "muxDestroyed (apply_effects r i m es) = muxDestroyed m"
  "decoder (apply_effects r i m es) = decoder m"
  by (induction es arbitrary: m; simp)+

lemma apply_effects_no_send:
  "no_send es \<Longrightarrow> pushed (apply_effects r i m es) = pushed m
     \<and> encoder (apply_effects r i m es) = encoder m"
proof (induction es arbitrary: m)
  case Nil
  then show ?case by simp
next
  case (Cons e es)
  then show ?case by (cases e) (simp_all add: no_send_def)
qed

subsection \<open>Ending the halves of a stream\<close>

lemma onSourceEnd_ended [simp]: "sourceEnded (fst (onSourceEnd err s))"
  by (simp add: onSourceEnd_def Let_def stream_destroy_def)

lemma onSinkEnd_ended [simp]: "sinkEnded (fst (onSinkEnd err s))"
  by (simp add: onSinkEnd_def Let_def stream_destroy_def)

lemma onSinkEnd_source [simp]: "sourceEnded (fst (onSinkEnd err s)) = sourceEnded s"
  by (simp add: onSinkEnd_def Let_def stream_destroy_def)

lemma onSourceEnd_sink [simp]: "sinkEnded (fst (onSourceEnd err s)) = sinkEnded s"
  by (simp add: onSourceEnd_def Let_def stream_destroy_def)

lemma onSourceEnd_no_send [simp]: "no_send (snd (onSourceEnd err s))"
  by (simp add: onSourceEnd_def Let_def no_send_def)

lemma onSinkEnd_no_send [simp]: "no_send (snd (onSinkEnd err s))"
  by (simp add: onSinkEnd_def Let_def no_send_def)

lemma no_send_append [simp]: "no_send (es @ es') \<longleftrightarrow> no_send es \<and> no_send es'"
  by (simp add: no_send_def)

lemma reset_unfold:
  "reset s =
     (fst (onSinkEnd (Some StreamReset) (fst (onSourceEnd (Some StreamReset) (s\<lparr>resetController := True\<rparr>)))),
      snd (onSourceEnd (Some StreamReset) (s\<lparr>resetController := True\<rparr>))
      @ snd (onSinkEnd (Some StreamReset) (fst (onSourceEnd (Some StreamReset) (s\<lparr>resetController := True\<rparr>)))))"
  by (simp add: reset_def Let_def split_beta)

lemma reset_ends_both:
  "sourceEnded (fst (reset s))" "sinkEnded (fst (reset s))" "no_send (snd (reset s))"
  by (simp_all add: reset_unfold)

lemma reset_endErr:
  "\<not> (sourceEnded s \<and> sinkEnded s) \<Longrightarrow> endErr s = None \<Longrightarrow>
   endErr (fst (reset s)) = Some StreamReset"
  by (auto simp: reset_unfold onSourceEnd_def onSinkEnd_def Let_def stream_destroy_def)

lemma reset_calls:
  "snd (reset s) = (if onEnd_given s \<and> \<not> (sourceEnded s \<and> sinkEnded s)
                    then [OnEnd (endErr (fst (reset s)))] else [])"
  by (auto simp: reset_unfold onSourceEnd_def onSinkEnd_def Let_def stream_destroy_def)

lemma reset_destroy:
  "onEnd_given s \<Longrightarrow> \<not> (sourceEnded s \<and> sinkEnded s) \<Longrightarrow> st_destroyed s = None \<Longrightarrow>
   st_destroyed (fst (reset s)) = Some (Some StreamReset)"
  by (auto simp: reset_unfold onSourceEnd_def onSinkEnd_def Let_def stream_destroy_def)

subsection \<open>Dispatch of inbound messages\<close>

lemma and_1_nat: "(n::nat) AND 1 = 1 \<longleftrightarrow> odd n"
  by (simp add: and_one_eq mod_2_eq_odd)

lemma handleIncoming_routed:
  assumes "msg_type msg \<noteq> NEW_STREAM"
  shows "mux_handleIncoming m msg =
           (case map_of (if odd (msg_type msg) then initiators m else receivers m) (msg_id msg) of
              None \<Rightarrow> Inr m
            | Some ref \<Rightarrow> dispatch m msg ref)"
  unfolding mux_handleIncoming_def Let_def and_1_nat using assms by simp

text \<open>
  Claim C8. For an inbound message whose type is not \<open>NEW_STREAM\<close> the map is chosen by
  the parity of the type: the odd types 1, 3, 5 (\<open>MESSAGE_RECEIVER\<close>, \<open>CLOSE_RECEIVER\<close>,
  \<open>RESET_RECEIVER\<close>) are looked up in \<open>initiators\<close>, the even types 2, 4, 6
  (\<open>MESSAGE_INITIATOR\<close>, \<open>CLOSE_INITIATOR\<close>, \<open>RESET_INITIATOR\<close>) in \<open>receivers\<close>. When
  the id is not in the chosen map the call succeeds and the state is the one before;
  otherwise the message goes to the stream found there.
\<close>

theorem type_parity_routing:
  assumes "msg_type msg \<noteq> NEW_STREAM"
  shows "mux_handleIncoming m msg =
           (case map_of (if odd (msg_type msg) then initiators m else receivers m) (msg_id msg) of
              None \<Rightarrow> Inr m
            | Some ref \<Rightarrow> dispatch m msg ref)
       \<and> (msg_type msg \<in> {MESSAGE_RECEIVER, CLOSE_RECEIVER, RESET_RECEIVER} \<longrightarrow>
            mux_handleIncoming m msg =
              (case map_of (initiators m) (msg_id msg) of
                 None \<Rightarrow> Inr m
               | Some ref \<Rightarrow> dispatch m msg ref))
       \<and> (msg_type msg \<in> {MESSAGE_INITIATOR, CLOSE_INITIATOR, RESET_INITIATOR} \<longrightarrow>
            mux_handleIncoming m msg =
              (case map_of (receivers m) (msg_id msg) of
                 None \<Rightarrow> Inr m
               | Some ref \<Rightarrow> dispatch m msg ref))"
proof (intro conjI impI)
  show general: "mux_handleIncoming m msg =
           (case map_of (if odd (msg_type msg) then initiators m else receivers m) (msg_id msg) of
              None \<Rightarrow> Inr m
            | Some ref \<Rightarrow> dispatch m msg ref)"
    by (rule handleIncoming_routed [OF assms])
  {
    assume "msg_type msg \<in> {MESSAGE_RECEIVER, CLOSE_RECEIVER, RESET_RECEIVER}"
    then have "odd (msg_type msg)"
      by (auto simp: MessageTypes_defs)
    with general
    show "mux_handleIncoming m msg =
              (case map_of (initiators m) (msg_id msg) of
                 None \<Rightarrow> Inr m
               | Some ref \<Rightarrow> dispatch m msg ref)"
      by simp
  }
  {
    assume "msg_type msg \<in> {MESSAGE_INITIATOR, CLOSE_INITIATOR, RESET_INITIATOR}"
    then have "even (msg_type msg)"
      by (auto simp: MessageTypes_defs)
    with general
    show "mux_handleIncoming m msg =
              (case map_of (receivers m) (msg_id msg) of
                 None \<Rightarrow> Inr m
               | Some ref \<Rightarrow> dispatch m msg ref)"
      by simp
  }
qed

lemma new_mux_fields [simp]:
  "objs (new_MplexStreamMuxer i) = []"
  "initiators (new_MplexStreamMuxer i) = []"
  "receivers (new_MplexStreamMuxer i) = []"
  "streamId (new_MplexStreamMuxer i) = 0"
  "init (new_MplexStreamMuxer i) = i"
  "muxCloseController (new_MplexStreamMuxer i) = False"
  "muxDestroyed (new_MplexStreamMuxer i) = None"
  "pushed (new_MplexStreamMuxer i) = []"
  "encoder (new_MplexStreamMuxer i) = new_Encoder"
  "decoder (new_MplexStreamMuxer i) = new_Decoder"
  "rateLimiter (new_MplexStreamMuxer i) = \<lparr>rl_points = disconnectThreshold i, rl_consumed = 0\<rparr>"
  by (simp_all add: new_MplexStreamMuxer_def)

theorem type_parity_routing_witness:
  "msg_type \<lparr>msg_id = 3, msg_type = 5, msg_data = None\<rparr> \<noteq> NEW_STREAM
   \<and> msg_type \<lparr>msg_id = 3, msg_type = 5, msg_data = None\<rparr>
        \<in> {MESSAGE_RECEIVER, CLOSE_RECEIVER, RESET_RECEIVER}
   \<and> mux_handleIncoming (new_MplexStreamMuxer example_init)
        \<lparr>msg_id = 3, msg_type = 5, msg_data = None\<rparr>
       = Inr (new_MplexStreamMuxer example_init)"
  using type_parity_routing [of "\<lparr>msg_id = 3, msg_type = 5, msg_data = None\<rparr>"
      "new_MplexStreamMuxer example_init"]
  by (simp add: MessageTypes_defs)

lemma sourcePush_eq:
  "sourcePush d s = (s\<lparr>readable := readable s @ (if d = [] then [] else [Some d])\<rparr>, [])"
  by (simp add: sourcePush_def bufs_def stream_push_def)

lemma stream_destroy_eq:
  "stream_destroy err s =
     s\<lparr>st_destroyed := (case st_destroyed s of None \<Rightarrow> Some err | Some e \<Rightarrow> Some e)\<rparr>"
  by (cases "st_destroyed s") (simp_all add: stream_destroy_def)

lemma dispatch_message:
  assumes "msg_type msg = MESSAGE_INITIATOR \<or> msg_type msg = MESSAGE_RECEIVER"
  shows "dispatch m msg ref =
     (if maxBufferSize m < sourceReadableLength (objs m ! ref) then
        Inr ((pushToSink m \<lparr>msg_id = msg_id msg,
                             msg_type = (if msg_type msg = MESSAGE_INITIATOR then RESET_RECEIVER
                                         else RESET_INITIATOR),
                             msg_data = None\<rparr>)
             \<lparr>objs := (objs m)[ref := (objs m ! ref)
                 \<lparr>st_destroyed := (case st_destroyed (objs m ! ref) of
                                     None \<Rightarrow> Some (Some InputBufferFull) | Some e \<Rightarrow> Some e)\<rparr>]\<rparr>)
      else (case msg_data msg of
              None \<Rightarrow> Inl TypeError
            | Some d \<Rightarrow>
                Inr (m\<lparr>objs := (objs m)[ref := (objs m ! ref)
                      \<lparr>readable := readable (objs m ! ref) @ (if d = [] then [] else [Some d])\<rparr>]\<rparr>)))"
  using assms
  by (auto simp: dispatch_def Let_def call_stream_def sourcePush_eq stream_destroy_eq
        split: option.splits)


lemma example_mux_reached:
  "mux_handleIncoming (new_MplexStreamMuxer example_init)
     \<lparr>msg_id = 5, msg_type = NEW_STREAM, msg_data = Some []\<rparr> = Inr example_mux"
  by (simp add: mux_handleIncoming_def maxInboundStreams_def example_init_def
        mux_newReceiverStream_def mux_newStream_def registry_def createStream_def start_def
        example_mux_def example_receiver_def new_MplexStreamMuxer_def Let_def)

lemma example_mux_fields [simp]:
  "objs example_mux = [example_receiver]"
  "receivers example_mux = [(5, 0)]"
  "initiators example_mux = []"
  "pushed example_mux = []"
  "maxBufferSize example_mux = 0"
  "encoder example_mux = new_Encoder"
  by (simp_all add: example_mux_def maxBufferSize_def example_init_def)


subsection \<open>Reset\<close>

lemma dispatch_reset:
  assumes "msg_type msg = RESET_INITIATOR \<or> msg_type msg = RESET_RECEIVER"
  shows "dispatch m msg ref = Inr (call_stream m ref reset)"
  using assms by (auto simp: dispatch_def Let_def MessageTypes_defs)

text \<open>
  Claim C9. A call of \<open>reset()\<close> leaves both halves of the stream ended and makes no
  call of \<open>send\<close>; a stream that had a half open and no end error recorded ends with
  \<open>StreamReset\<close>. A \<open>RESET_INITIATOR\<close> for an id in \<open>receivers\<close>, or a
  \<open>RESET_RECEIVER\<close> for an id in \<open>initiators\<close>, is that call on the stream found: its
  halves are ended, with \<open>StreamReset\<close> under the same condition, and nothing is pushed
  to the sink.
\<close>

theorem reset_asymmetry:
  "sourceEnded (fst (reset s)) \<and> sinkEnded (fst (reset s)) \<and> no_send (snd (reset s))
   \<and> (\<not> (sourceEnded s \<and> sinkEnded s) \<and> endErr s = None \<longrightarrow>
        endErr (fst (reset s)) = Some StreamReset)
   \<and> ((msg_type msg = RESET_INITIATOR \<and> map_of (receivers m) (msg_id msg) = Some ref
        \<or> msg_type msg = RESET_RECEIVER \<and> map_of (initiators m) (msg_id msg) = Some ref)
       \<and> ref < length (objs m) \<longrightarrow>
        (\<exists>m'. mux_handleIncoming m msg = Inr m'
           \<and> objs m' = (objs m)[ref := fst (reset (objs m ! ref))]
           \<and> sourceEnded (objs m' ! ref) \<and> sinkEnded (objs m' ! ref)
           \<and> (\<not> (sourceEnded (objs m ! ref) \<and> sinkEnded (objs m ! ref))
                \<and> endErr (objs m ! ref) = None \<longrightarrow>
              endErr (objs m' ! ref) = Some StreamReset)
           \<and> pushed m' = pushed m))"
proof (intro conjI impI)
  show "sourceEnded (fst (reset s))" "sinkEnded (fst (reset s))" "no_send (snd (reset s))"
    by (rule reset_ends_both)+
  show "endErr (fst (reset s)) = Some StreamReset"
    if "\<not> (sourceEnded s \<and> sinkEnded s) \<and> endErr s = None"
    using that by (simp add: reset_endErr)
  assume reg: "(msg_type msg = RESET_INITIATOR \<and> map_of (receivers m) (msg_id msg) = Some ref
        \<or> msg_type msg = RESET_RECEIVER \<and> map_of (initiators m) (msg_id msg) = Some ref)
       \<and> ref < length (objs m)"
  have ty: "msg_type msg = RESET_INITIATOR \<or> msg_type msg = RESET_RECEIVER"
    using reg by auto
  have nn: "msg_type msg \<noteq> NEW_STREAM"
    using ty by (auto simp: MessageTypes_defs)
  have sel: "map_of (if odd (msg_type msg) then initiators m else receivers m) (msg_id msg)
               = Some ref"
    using reg by (auto simp: MessageTypes_defs)
  have h: "mux_handleIncoming m msg = Inr (call_stream m ref reset)"
    by (simp add: handleIncoming_routed [OF nn] sel dispatch_reset [OF ty])
  let ?s = "objs m ! ref"
  let ?m' = "call_stream m ref reset"
  have o: "objs ?m' = (objs m)[ref := fst (reset ?s)]"
    by (simp add: call_stream_def Let_def split_beta)
  have p: "pushed ?m' = pushed m"
    using apply_effects_no_send [OF reset_ends_both(3), of "st_type ?s" "st_id ?s"
        "m\<lparr>objs := (objs m)[ref := fst (reset ?s)]\<rparr>" ?s]
    by (simp add: call_stream_def Let_def split_beta)
  have at: "objs ?m' ! ref = fst (reset ?s)"
    using reg by (simp add: o)
  show "\<exists>m'. mux_handleIncoming m msg = Inr m'
           \<and> objs m' = (objs m)[ref := fst (reset (objs m ! ref))]
           \<and> sourceEnded (objs m' ! ref) \<and> sinkEnded (objs m' ! ref)
           \<and> (\<not> (sourceEnded (objs m ! ref) \<and> sinkEnded (objs m ! ref))
                \<and> endErr (objs m ! ref) = None \<longrightarrow>
              endErr (objs m' ! ref) = Some StreamReset)
           \<and> pushed m' = pushed m"
    unfolding h
    by (intro exI [of _ ?m'] conjI impI refl o p)
      (simp_all add: at reset_ends_both reset_endErr)
qed

theorem reset_asymmetry_witness:
  "sourceEnded (fst (reset example_receiver)) \<and> sinkEnded (fst (reset example_receiver))
   \<and> no_send (snd (reset example_receiver))
   \<and> \<not> (sourceEnded example_receiver \<and> sinkEnded example_receiver)
   \<and> endErr example_receiver = None
   \<and> endErr (fst (reset example_receiver)) = Some StreamReset
   \<and> map_of (receivers example_mux) 5 = Some 0
   \<and> (\<exists>m'. mux_handleIncoming example_mux
               \<lparr>msg_id = 5, msg_type = RESET_INITIATOR, msg_data = None\<rparr> = Inr m'
          \<and> sourceEnded (objs m' ! 0) \<and> sinkEnded (objs m' ! 0)
          \<and> endErr (objs m' ! 0) = Some StreamReset
          \<and> pushed m' = [])"
proof -
  let ?msg = "\<lparr>msg_id = 5, msg_type = RESET_INITIATOR, msg_data = None :: byte list option\<rparr>"
  have open_: "\<not> (sourceEnded example_receiver \<and> sinkEnded example_receiver)
             \<and> endErr example_receiver = None"
    by (simp add: example_receiver_def)
  have reg: "(msg_type ?msg = RESET_INITIATOR \<and> map_of (receivers example_mux) (msg_id ?msg) = Some 0
        \<or> msg_type ?msg = RESET_RECEIVER \<and> map_of (initiators example_mux) (msg_id ?msg) = Some 0)
       \<and> 0 < length (objs example_mux)"
    by simp
  note inst = reset_asymmetry [of example_receiver ?msg example_mux 0]
  from inst open_ have local: "sourceEnded (fst (reset example_receiver))"
      "sinkEnded (fst (reset example_receiver))" "no_send (snd (reset example_receiver))"
      "endErr (fst (reset example_receiver)) = Some StreamReset"
    by blast+
  from inst reg obtain m' where m':
      "mux_handleIncoming example_mux ?msg = Inr m'"
      "sourceEnded (objs m' ! 0)" "sinkEnded (objs m' ! 0)"
      "\<not> (sourceEnded (objs example_mux ! 0) \<and> sinkEnded (objs example_mux ! 0))
         \<and> endErr (objs example_mux ! 0) = None \<longrightarrow> endErr (objs m' ! 0) = Some StreamReset"
      "pushed m' = pushed example_mux"
    by blast
  from m'(4) open_ have "endErr (objs m' ! 0) = Some StreamReset" by simp
  with m' local open_ show ?thesis by auto
qed

subsection \<open>The readable length\<close>

text \<open>
  Claim C5 (the code departs from it). \<open>sourceReadableLength\<close> returns the variable
  \<open>readableLength\<close>, which only the \<open>read(size)\<close> handler assigns, with the size that Node
  asks for; \<open>sourcePush\<close> does not change it. After three bytes are pushed into a fresh
  stream that nobody reads, three bytes are buffered and \<open>sourceReadableLength\<close> is 0;
  after Node has asked for 16384 bytes it is 16384.
\<close>

theorem sourceReadableLength_is_requested_size:
  "createStream \<lparr>opt_id = 5, opt_name = Some [], opt_onEnd = True, opt_type = Some Receiver,
                  opt_maxMsgSize = None\<rparr> = Inr (example_receiver, [])
   \<and> readable (fst (sourcePush [1, 2, 3] example_receiver)) = [Some [1, 2, 3]]
   \<and> sourceReadableLength (fst (sourcePush [1, 2, 3] example_receiver)) = 0
   \<and> readable (fst (read 16384 (fst (sourcePush [1, 2, 3] example_receiver)))) = [Some [1, 2, 3]]
   \<and> sourceReadableLength (fst (read 16384 (fst (sourcePush [1, 2, 3] example_receiver)))) = 16384"
  by (simp add: createStream_def start_def example_receiver_def sourcePush_def bufs_def
        stream_push_def sourceReadableLength_def read_def)

subsection \<open>Creating streams\<close>

lemma createStream_eq:
  "createStream \<lparr>opt_id = i, opt_name = Some name, opt_onEnd = True, opt_type = Some r,
                  opt_maxMsgSize = mm\<rparr>
     = Inr (fresh_stream i name r mm,
            if r = Initiator
            then [Send \<lparr>msg_id = i, msg_type = NEW_STREAM, msg_data = Some name\<rparr>] else [])"
  by (simp add: createStream_def start_def fresh_stream_def)

lemma update_absent: "k \<notin> fst ` set al \<Longrightarrow> AList.update k v al = al @ [(k, v)]"
  by (induction al) auto

lemma mux_newStream_ok:
  assumes "\<not> (r = Initiator \<and> length (initiators m) = maxOutboundStreams m)"
    and "i \<notin> fst ` set (registry r m)"
  shows "mux_newStream m i name r =
     (Inr (length (objs m)),
      registry_update r (\<lambda>al. al @ [(i, length (objs m))])
        (apply_effects r i (m\<lparr>objs := objs m @ [fresh_stream i name r (init_maxMsgSize (init m))]\<rparr>)
           (if r = Initiator
            then [Send \<lparr>msg_id = i, msg_type = NEW_STREAM, msg_data = Some name\<rparr>] else [])))"
proof -
  have none: "map_of (registry r m) i = None"
    using assms(2) by (simp add: map_of_eq_None_iff)
  show ?thesis
  proof (cases r)
    case Initiator
    then have "i \<notin> fst ` set (initiators m)" using assms(2) by (simp add: registry_def)
    then show ?thesis
      using assms(1) none Initiator
      by (simp add: mux_newStream_def createStream_eq Let_def registry_update_def
            update_absent)
  next
    case Receiver
    then have "i \<notin> fst ` set (receivers m)" using assms(2) by (simp add: registry_def)
    then show ?thesis
      using none Receiver
      by (simp add: mux_newStream_def createStream_eq Let_def registry_update_def
            update_absent)
  qed
qed

subsection \<open>The inbound cap\<close>

lemma maxInboundStreams_cong:
  "init m' = init m \<Longrightarrow> maxInboundStreams m' = maxInboundStreams m"
  by (simp add: maxInboundStreams_def)

lemma new_receiver_step:
  assumes "msg_type msg = NEW_STREAM" and "msg_data msg = Some d"
    and "length (receivers m) \<noteq> maxInboundStreams m"
    and "msg_id msg \<notin> fst ` set (receivers m)"
  shows "mux_handleIncoming m msg =
     Inr (m\<lparr>objs := objs m @ [fresh_stream (msg_id msg) d Receiver (init_maxMsgSize (init m))],
            receivers := receivers m @ [(msg_id msg, length (objs m))]\<rparr>)"
proof -
  have "mux_newStream m (msg_id msg) d Receiver =
     (Inr (length (objs m)),
      registry_update Receiver (\<lambda>al. al @ [(msg_id msg, length (objs m))])
        (apply_effects Receiver (msg_id msg)
           (m\<lparr>objs := objs m @ [fresh_stream (msg_id msg) d Receiver (init_maxMsgSize (init m))]\<rparr>)
           (if Receiver = Initiator
            then [Send \<lparr>msg_id = msg_id msg, msg_type = NEW_STREAM, msg_data = Some d\<rparr>]
            else [])))"
    by (rule mux_newStream_ok) (use assms(4) in \<open>simp_all add: registry_def\<close>)
  then show ?thesis
    using assms(1,2,3)
    by (simp add: mux_handleIncoming_def Let_def mux_newReceiverStream_def registry_update_def)
qed

lemma over_cap_step:
  assumes "msg_type msg = NEW_STREAM" and "length (receivers m) = maxInboundStreams m"
  shows "mux_handleIncoming m msg =
     Inr (if rl_consumed (rateLimiter m) < rl_points (rateLimiter m)
          then (pushToSink m \<lparr>msg_id = msg_id msg, msg_type = RESET_RECEIVER, msg_data = None\<rparr>)
                 \<lparr>rateLimiter := (rateLimiter m)\<lparr>rl_consumed := rl_consumed (rateLimiter m) + 1\<rparr>\<rparr>
          else mux_destroy TooManyOpenStreams
                 ((pushToSink m \<lparr>msg_id = msg_id msg, msg_type = RESET_RECEIVER, msg_data = None\<rparr>)
                    \<lparr>rateLimiter := (rateLimiter m)\<lparr>rl_consumed := rl_consumed (rateLimiter m) + 1\<rparr>\<rparr>))"
  using assms
  by (auto simp: mux_handleIncoming_def Let_def rateLimiter_consume_def split_beta)

lemma run_append:
  "run m (evs @ evs') =
     (case run m evs of
        None \<Rightarrow> None
      | Some (outs, m') \<Rightarrow>
          (case run m' evs' of
             None \<Rightarrow> None
           | Some (outs', m'') \<Rightarrow> Some (outs @ outs', m'')))"
  by (induction evs arbitrary: m) (auto split: option.splits)

lemma step_Incoming_ok:
  "mux_handleIncoming m msg = Inr m' \<Longrightarrow> step m (Incoming msg) = Some (Done, m')"
  by (simp add: step_def)

lemma open_receivers_run:
  assumes "list_all (\<lambda>msg. msg_type msg = NEW_STREAM \<and> msg_data msg \<noteq> None) msgs"
    and "distinct (map msg_id msgs)"
    and "set (map msg_id msgs) \<inter> fst ` set (receivers m) = {}"
    and "length (receivers m) + length msgs \<le> maxInboundStreams m"
  shows "\<exists>m'. run m (map Incoming msgs) = Some (replicate (length msgs) Done, m')
           \<and> map fst (receivers m') = map fst (receivers m) @ map msg_id msgs
           \<and> rateLimiter m' = rateLimiter m \<and> muxDestroyed m' = muxDestroyed m
           \<and> init m' = init m \<and> pushed m' = pushed m \<and> encoder m' = encoder m"
  using assms
proof (induction msgs arbitrary: m)
  case Nil
  then show ?case by simp
next
  case (Cons msg msgs)
  obtain d where d: "msg_data msg = Some d" and ty: "msg_type msg = NEW_STREAM"
    using Cons.prems(1) by auto
  let ?m1 = "m\<lparr>objs := objs m @ [fresh_stream (msg_id msg) d Receiver (init_maxMsgSize (init m))],
                receivers := receivers m @ [(msg_id msg, length (objs m))]\<rparr>"
  have h: "mux_handleIncoming m msg = Inr ?m1"
    by (rule new_receiver_step [OF ty d]) (use Cons.prems in auto)
  have "\<exists>m'. run ?m1 (map Incoming msgs) = Some (replicate (length msgs) Done, m')
           \<and> map fst (receivers m') = map fst (receivers ?m1) @ map msg_id msgs
           \<and> rateLimiter m' = rateLimiter ?m1 \<and> muxDestroyed m' = muxDestroyed ?m1
           \<and> init m' = init ?m1 \<and> pushed m' = pushed ?m1 \<and> encoder m' = encoder ?m1"
    by (rule Cons.IH) (use Cons.prems in \<open>auto simp: maxInboundStreams_def\<close>)
  then obtain m' where m': "run ?m1 (map Incoming msgs) = Some (replicate (length msgs) Done, m')"
      "map fst (receivers m') = map fst (receivers ?m1) @ map msg_id msgs"
      "rateLimiter m' = rateLimiter ?m1" "muxDestroyed m' = muxDestroyed ?m1"
      "init m' = init ?m1" "pushed m' = pushed ?m1" "encoder m' = encoder ?m1"
    by blast
  show ?case
    using m' by (intro exI [of _ m']) (simp add: step_Incoming_ok [OF h])
qed

lemma over_cap_run:
  assumes "list_all (\<lambda>msg. msg_type msg = NEW_STREAM \<and> msg_data msg \<noteq> None) msgs"
    and "length (receivers m) = maxInboundStreams m"
    and "rl_consumed (rateLimiter m) + length msgs \<le> rl_points (rateLimiter m)"
  shows "\<exists>m'. run m (map Incoming msgs) = Some (replicate (length msgs) Done, m')
           \<and> receivers m' = receivers m
           \<and> rl_consumed (rateLimiter m') = rl_consumed (rateLimiter m) + length msgs
           \<and> rl_points (rateLimiter m') = rl_points (rateLimiter m)
           \<and> muxDestroyed m' = muxDestroyed m \<and> init m' = init m
           \<and> (encoder_ok (encoder m)
                \<and> list_all (\<lambda>msg. 0 \<le> msg_id msg \<and> msg_id msg < 2 ^ 28) msgs \<longrightarrow>
              encoder_ok (encoder m')
              \<and> pushed m' = pushed m @ map (\<lambda>msg. varint_encode (msg_id msg * 8 + 5) @ [0]) msgs)"
  using assms
proof (induction msgs arbitrary: m)
  case Nil
  then show ?case by simp
next
  case (Cons msg msgs)
  have ty: "msg_type msg = NEW_STREAM" using Cons.prems(1) by simp
  let ?reset = "\<lparr>msg_id = msg_id msg, msg_type = RESET_RECEIVER, msg_data = None\<rparr>"
  let ?m1 = "(pushToSink m ?reset)
               \<lparr>rateLimiter := (rateLimiter m)\<lparr>rl_consumed := rl_consumed (rateLimiter m) + 1\<rparr>\<rparr>"
  have h: "mux_handleIncoming m msg = Inr ?m1"
    using over_cap_step [OF ty Cons.prems(2)] Cons.prems(3) by simp
  have enc1: "encoder ?m1 = snd (Encoder_write (encoder m) ?reset)"
    by (simp add: pushToSink_def split_beta)
  have p1: "pushed ?m1 = pushed m @ [varint_encode (msg_id msg * 8 + 5) @ [0]]"
    if "encoder_ok (encoder m)" "0 \<le> msg_id msg" "msg_id msg < 2 ^ 28"
    using control_frame_chunks [OF that, of RESET_RECEIVER]
    by (simp add: RESET_RECEIVER_def)
  have "\<exists>m'. run ?m1 (map Incoming msgs) = Some (replicate (length msgs) Done, m')
           \<and> receivers m' = receivers ?m1
           \<and> rl_consumed (rateLimiter m') = rl_consumed (rateLimiter ?m1) + length msgs
           \<and> rl_points (rateLimiter m') = rl_points (rateLimiter ?m1)
           \<and> muxDestroyed m' = muxDestroyed ?m1 \<and> init m' = init ?m1
           \<and> (encoder_ok (encoder ?m1)
                \<and> list_all (\<lambda>msg. 0 \<le> msg_id msg \<and> msg_id msg < 2 ^ 28) msgs \<longrightarrow>
              encoder_ok (encoder m')
              \<and> pushed m' = pushed ?m1 @ map (\<lambda>msg. varint_encode (msg_id msg * 8 + 5) @ [0]) msgs)"
    by (rule Cons.IH) (use Cons.prems in \<open>simp_all add: maxInboundStreams_def\<close>)
  then obtain m' where m': "run ?m1 (map Incoming msgs) = Some (replicate (length msgs) Done, m')"
      "receivers m' = receivers ?m1"
      "rl_consumed (rateLimiter m') = rl_consumed (rateLimiter ?m1) + length msgs"
      "rl_points (rateLimiter m') = rl_points (rateLimiter ?m1)"
      "muxDestroyed m' = muxDestroyed ?m1" "init m' = init ?m1"
      "encoder_ok (encoder ?m1)
         \<and> list_all (\<lambda>msg. 0 \<le> msg_id msg \<and> msg_id msg < 2 ^ 28) msgs \<longrightarrow>
       encoder_ok (encoder m')
       \<and> pushed m' = pushed ?m1 @ map (\<lambda>msg. varint_encode (msg_id msg * 8 + 5) @ [0]) msgs"
    by blast
  have sent: "encoder_ok (encoder m')
       \<and> pushed m' = pushed m @ map (\<lambda>msg. varint_encode (msg_id msg * 8 + 5) @ [0]) (msg # msgs)"
    if ok: "encoder_ok (encoder m)"
      and ids: "list_all (\<lambda>msg. 0 \<le> msg_id msg \<and> msg_id msg < 2 ^ 28) (msg # msgs)"
  proof -
    have "encoder_ok (encoder ?m1)"
      unfolding enc1 by (rule encoder_ok_write [OF ok])
    moreover have "list_all (\<lambda>msg. 0 \<le> msg_id msg \<and> msg_id msg < 2 ^ 28) msgs"
      using ids by simp
    ultimately have "encoder_ok (encoder m')"
      and "pushed m' = pushed ?m1 @ map (\<lambda>msg. varint_encode (msg_id msg * 8 + 5) @ [0]) msgs"
      using m'(7) by simp_all
    moreover have "pushed ?m1 = pushed m @ [varint_encode (msg_id msg * 8 + 5) @ [0]]"
      by (rule p1 [OF ok]) (use ids in simp_all)
    ultimately show ?thesis by simp
  qed
  show ?case
    using m'(1-6) sent by (intro exI [of _ m']) (simp add: step_Incoming_ok [OF h])
qed

lemma burst_run:
  assumes news: "list_all (\<lambda>msg. msg_type msg = NEW_STREAM \<and> msg_data msg \<noteq> None) msgs"
    and dist: "distinct (map msg_id msgs)"
    and len: "length msgs = maxInboundStreams (new_MplexStreamMuxer i) + disconnectThreshold i + 1"
  shows "(\<exists>m'. run (new_MplexStreamMuxer i) (map Incoming msgs)
                 = Some (replicate (length msgs) Done, m')
            \<and> muxDestroyed m' = Some TooManyOpenStreams
            \<and> map fst (receivers m')
                = map msg_id (take (maxInboundStreams (new_MplexStreamMuxer i)) msgs)
            \<and> (list_all (\<lambda>msg. 0 \<le> msg_id msg \<and> msg_id msg < 2 ^ 28) msgs \<longrightarrow>
                 pushed m' = map (\<lambda>msg. varint_encode (msg_id msg * 8 + 5) @ [0])
                               (drop (maxInboundStreams (new_MplexStreamMuxer i)) msgs)))
       \<and> (\<exists>m''. run (new_MplexStreamMuxer i) (map Incoming (butlast msgs))
                 = Some (replicate (length msgs - 1) Done, m'')
            \<and> muxDestroyed m'' = None)"
proof -
  let ?m0 = "new_MplexStreamMuxer i"
  let ?N = "maxInboundStreams ?m0" and ?T = "disconnectThreshold i"
  let ?frame = "\<lambda>msg. varint_encode (msg_id msg * 8 + 5) @ [0]"
  let ?ids = "list_all (\<lambda>msg. 0 \<le> msg_id msg \<and> msg_id msg < 2 ^ 28)"
  define xs where "xs = take ?N msgs"
  define ys where "ys = take ?T (drop ?N msgs)"
  define z where "z = last msgs"
  have ne: "msgs \<noteq> []" using len by auto
  have bl: "butlast msgs = xs @ ys"
  proof -
    have "length (butlast msgs) = ?N + ?T" using len by simp
    then have "butlast msgs = take (?N + ?T) msgs"
      by (metis butlast_conv_take diff_add_inverse2 len)
    also have "\<dots> = xs @ ys"
      by (simp add: xs_def ys_def take_add)
    finally show ?thesis .
  qed
  have split: "msgs = xs @ ys @ [z]"
    using append_butlast_last_id [OF ne] bl by (simp add: z_def)
  have lx: "length xs = ?N" and ly: "length ys = ?T"
    using len by (simp_all add: xs_def ys_def)
  have dr: "drop ?N msgs = ys @ [z]"
    using lx by (subst split) simp
  have nx: "list_all (\<lambda>msg. msg_type msg = NEW_STREAM \<and> msg_data msg \<noteq> None) xs"
    and ny: "list_all (\<lambda>msg. msg_type msg = NEW_STREAM \<and> msg_data msg \<noteq> None) ys"
    and nz: "msg_type z = NEW_STREAM"
    using news unfolding split by simp_all
  have dx: "distinct (map msg_id xs)"
    using dist unfolding split by simp
  have "\<exists>m1. run ?m0 (map Incoming xs) = Some (replicate (length xs) Done, m1)
           \<and> map fst (receivers m1) = map fst (receivers ?m0) @ map msg_id xs
           \<and> rateLimiter m1 = rateLimiter ?m0 \<and> muxDestroyed m1 = muxDestroyed ?m0
           \<and> init m1 = init ?m0 \<and> pushed m1 = pushed ?m0 \<and> encoder m1 = encoder ?m0"
    by (rule open_receivers_run [OF nx dx]) (simp_all add: lx)
  then obtain m1 where m1: "run ?m0 (map Incoming xs) = Some (replicate (length xs) Done, m1)"
      "map fst (receivers m1) = map msg_id xs" "rateLimiter m1 = rateLimiter ?m0"
      "muxDestroyed m1 = None" "init m1 = i" "pushed m1 = []" "encoder m1 = new_Encoder"
    by auto
  have len1: "length (receivers m1) = ?N"
    using arg_cong [OF m1(2), of length] by (simp add: lx)
  have cap1: "length (receivers m1) = maxInboundStreams m1"
    using len1 m1 by (simp add: maxInboundStreams_def)
  have "\<exists>m2. run m1 (map Incoming ys) = Some (replicate (length ys) Done, m2)
           \<and> receivers m2 = receivers m1
           \<and> rl_consumed (rateLimiter m2) = rl_consumed (rateLimiter m1) + length ys
           \<and> rl_points (rateLimiter m2) = rl_points (rateLimiter m1)
           \<and> muxDestroyed m2 = muxDestroyed m1 \<and> init m2 = init m1
           \<and> (encoder_ok (encoder m1) \<and> ?ids ys \<longrightarrow>
              encoder_ok (encoder m2) \<and> pushed m2 = pushed m1 @ map ?frame ys)"
    by (rule over_cap_run [OF ny cap1]) (simp add: m1 ly)
  then obtain m2 where m2: "run m1 (map Incoming ys) = Some (replicate (length ys) Done, m2)"
      "receivers m2 = receivers m1" "rl_consumed (rateLimiter m2) = ?T"
      "rl_points (rateLimiter m2) = ?T" "muxDestroyed m2 = None" "init m2 = i"
      "?ids ys \<longrightarrow> encoder_ok (encoder m2) \<and> pushed m2 = map ?frame ys"
    by (auto simp: m1 ly encoder_ok_new)
  have cap2: "length (receivers m2) = maxInboundStreams m2"
    using m2 len1 by (simp add: maxInboundStreams_def)
  have before: "run ?m0 (map Incoming (butlast msgs)) = Some (replicate (length msgs - 1) Done, m2)"
    using m1(1) m2(1) lx ly len
    by (simp add: bl run_append replicate_add)
  let ?reset = "\<lparr>msg_id = msg_id z, msg_type = RESET_RECEIVER, msg_data = None\<rparr>"
  let ?m3 = "mux_destroy TooManyOpenStreams
               ((pushToSink m2 ?reset)
                  \<lparr>rateLimiter := (rateLimiter m2)\<lparr>rl_consumed := rl_consumed (rateLimiter m2) + 1\<rparr>\<rparr>)"
  have h3: "mux_handleIncoming m2 z = Inr ?m3"
    using over_cap_step [OF nz cap2] m2(3,4) by simp
  have d3: "muxDestroyed ?m3 = Some TooManyOpenStreams"
    using m2(5) by (simp add: mux_destroy_def)
  have r3: "map fst (receivers ?m3) = map msg_id (take ?N msgs)"
    using m1(2) m2(2) by (simp add: mux_destroy_def xs_def)
  have p3: "pushed ?m3 = map ?frame (drop ?N msgs)" if ids: "?ids msgs"
  proof -
    have iy: "?ids ys" and iz: "0 \<le> msg_id z" "msg_id z < 2 ^ 28"
      using ids unfolding split by simp_all
    have ok2: "encoder_ok (encoder m2)" and p2: "pushed m2 = map ?frame ys"
      using m2(7) iy by simp_all
    have "pushed (pushToSink m2 ?reset) = pushed m2 @ [?frame z]"
      using control_frame_chunks [OF ok2 iz, of RESET_RECEIVER]
      by (simp add: RESET_RECEIVER_def)
    then show ?thesis
      by (simp add: mux_destroy_def p2 dr)
  qed
  have "msgs = butlast msgs @ [z]"
    using append_butlast_last_id [OF ne] by (simp add: z_def)
  then have "map Incoming msgs = map Incoming (butlast msgs) @ [Incoming z]"
    by (metis list.simps(8,9) map_append)
  moreover have "replicate (length msgs - 1) Done @ [Done] = replicate (length msgs) Done"
    unfolding len by (simp add: replicate_append_same)
  ultimately have all: "run ?m0 (map Incoming msgs) = Some (replicate (length msgs) Done, ?m3)"
    using before step_Incoming_ok [OF h3]
    by (simp add: run_append)
  from all d3 r3 p3 before m2(5) show ?thesis by blast
qed



subsection \<open>Operations that open no outbound stream\<close>

lemma settles_refl [simp]: "settles m m"
  by (simp add: settles_def)

lemma settles_trans: "settles m m' \<Longrightarrow> settles m' m'' \<Longrightarrow> settles m m''"
  by (auto simp: settles_def)

lemma settles_pushToSink [simp]: "settles m (pushToSink m msg)"
  by (simp add: settles_def)

lemma settles_delete [simp]: "settles m (registry_update r (AList.delete i) m)"
  by (auto simp: settles_def AList.length_delete_le AList.delete_eq)

lemma settles_receivers [simp]: "settles m (registry_update Receiver f m)"
  by (simp add: settles_def)

lemma settles_fields [simp]:
  "settles m (m\<lparr>objs := os\<rparr>)"
  "settles m (m\<lparr>rateLimiter := rl\<rparr>)"
  "settles m (m\<lparr>muxDestroyed := d\<rparr>)"
  "settles m (m\<lparr>decoder := dec\<rparr>)"
  "settles m (m\<lparr>muxCloseController := True\<rparr>)"
  by (simp_all add: settles_def)

lemma settles_mux_destroy [simp]: "settles m (mux_destroy e m)"
  by (simp add: mux_destroy_def)

lemma apply_effects_initiators:
  "length (initiators (apply_effects r i m es)) \<le> length (initiators m)
   \<and> set (initiators (apply_effects r i m es)) \<subseteq> set (initiators m)"
proof (induction es arbitrary: m)
  case Nil
  then show ?case by simp
next
  case (Cons e es)
  have "length (initiators (apply_effect r i m e)) \<le> length (initiators m)
        \<and> set (initiators (apply_effect r i m e)) \<subseteq> set (initiators m)"
    by (cases e) (auto simp: AList.length_delete_le AList.delete_eq)
  with Cons.IH [of "apply_effect r i m e"] show ?case
    by (simp only: apply_effects_Cons) (meson order_trans)
qed

lemma settles_apply_effects: "settles m (apply_effects r i m es)"
  using apply_effects_initiators [of r i m es] by (simp add: settles_def)

lemma settles_call_stream: "settles m (call_stream m ref f)"
proof -
  obtain s' effs where f: "f (objs m ! ref) = (s', effs)" by (cases "f (objs m ! ref)")
  show ?thesis
    using apply_effects_initiators [of "st_type (objs m ! ref)" "st_id (objs m ! ref)"
        "m\<lparr>objs := (objs m)[ref := s']\<rparr>" effs]
    by (simp add: call_stream_def f Let_def settles_def)
qed

lemma apply_effects_Receiver_initiators [simp]:
  "initiators (apply_effects Receiver i m es) = initiators m"
proof (induction es arbitrary: m)
  case Nil
  then show ?case by simp
next
  case (Cons e es)
  then show ?case by (cases e) simp_all
qed

lemma settles_newReceiver: "settles m (snd (mux_newStream m i name Receiver))"
  by (simp add: mux_newStream_def Let_def createStream_eq settles_def)

lemma settles_dispatch: "dispatch m msg ref = Inr m' \<Longrightarrow> settles m m'"
proof -
  assume d: "dispatch m msg ref = Inr m'"
  have push: "settles m ((pushToSink m x)\<lparr>objs := os\<rparr>)" for x os
    by (rule settles_trans [of _ "pushToSink m x"]) simp_all
  show ?thesis
    using d
    by (auto simp: dispatch_def Let_def settles_call_stream push
          split: if_splits option.splits)
qed

lemma settles_handleIncoming: "mux_handleIncoming m msg = Inr m' \<Longrightarrow> settles m m'"
proof -
  assume h: "mux_handleIncoming m msg = Inr m'"
  have over: "settles m (mux_destroy e ((pushToSink m x)\<lparr>rateLimiter := rl\<rparr>))"
    "settles m ((pushToSink m x)\<lparr>rateLimiter := rl\<rparr>)" for e x rl
    by (rule settles_trans [of _ "pushToSink m x"], simp,
        rule settles_trans [of _ "(pushToSink m x)\<lparr>rateLimiter := rl\<rparr>"], simp, simp,
        rule settles_trans [of _ "pushToSink m x"], simp, simp)
  show ?thesis
  proof (cases "msg_type msg = NEW_STREAM")
    case True
    show ?thesis
    proof (cases "length (receivers m) = maxInboundStreams m")
      case cap: True
      then show ?thesis
        using h True
        by (auto simp: mux_handleIncoming_def Let_def split_beta over split: if_splits)
    next
      case False
      then obtain d where d: "msg_data msg = Some d"
        using h True by (auto simp: mux_handleIncoming_def Let_def split: option.splits)
      have "m' = snd (mux_newStream m (msg_id msg) d Receiver)"
        using h True False d
        by (auto simp: mux_handleIncoming_def Let_def mux_newReceiverStream_def
              split: prod.splits sum.splits)
      then show ?thesis by (simp add: settles_newReceiver)
    qed
  next
    case False
    then show ?thesis
      using h
      by (auto simp: mux_handleIncoming_def Let_def settles_dispatch split: option.splits)
  qed
qed

lemma settles_handle_all: "handle_all m msgs = (e, m') \<Longrightarrow> settles m m'"
proof (induction msgs arbitrary: m)
  case Nil
  then show ?case by simp
next
  case (Cons msg msgs)
  show ?case
  proof (cases "mux_handleIncoming m msg")
    case (Inl err)
    then show ?thesis using Cons.prems by simp
  next
    case (Inr m1)
    then have "handle_all m1 msgs = (e, m')" using Cons.prems by simp
    then have "settles m1 m'" by (rule Cons.IH)
    moreover have "settles m m1" using Inr by (rule settles_handleIncoming)
    ultimately show ?thesis by (rule settles_trans [rotated])
  qed
qed

lemma settles_mux_write: "mux_write m chunk = Some m' \<Longrightarrow> settles m m'"
proof -
  assume w: "mux_write m chunk = Some m'"
  then obtain msgs dec' where dw: "Decoder_write (decoder m) chunk = Some (msgs, dec')"
    by (auto simp: mux_write_def split: option.splits)
  obtain e m1 where ha: "handle_all (m\<lparr>decoder := dec'\<rparr>) msgs = (e, m1)"
    by (cases "handle_all (m\<lparr>decoder := dec'\<rparr>) msgs")
  have s1: "settles m m1"
    by (rule settles_trans [OF _ settles_handle_all [OF ha]]) simp
  have "m' = m1 \<or> (\<exists>err. m' = mux_destroy err m1)"
    using w dw ha by (auto simp: mux_write_def split: option.splits)
  then show ?thesis
    using s1 by (auto intro: settles_trans [OF s1])
qed

lemma destroy_all_fields:
  "initiators (foldl (\<lambda>m' ref. m'\<lparr>objs := (objs m')[ref := stream_destroy err (objs m' ! ref)]\<rparr>)
                 m refs) = initiators m
   \<and> streamId (foldl (\<lambda>m' ref. m'\<lparr>objs := (objs m')[ref := stream_destroy err (objs m' ! ref)]\<rparr>)
                 m refs) = streamId m
   \<and> init (foldl (\<lambda>m' ref. m'\<lparr>objs := (objs m')[ref := stream_destroy err (objs m' ! ref)]\<rparr>)
                 m refs) = init m"
  by (induction refs arbitrary: m) simp_all

lemma settles_mux_close: "settles m (mux_close m err)"
  using destroy_all_fields [of err m "streams m"]
  by (simp add: mux_close_def Let_def settles_def)

lemma settles_step:
  assumes "step m ev = Some (out, m')" and "\<not> is_NewStream ev"
  shows "settles m m'"
proof (cases ev)
  case (NewStream x)
  then show ?thesis using assms by simp
next
  case (Incoming msg)
  then show ?thesis
    using assms by (auto simp: step_def settles_handleIncoming split: sum.splits)
next
  case (TransportWrite chunk)
  then show ?thesis
    using assms by (auto simp: step_def settles_mux_write)
next
  case (CloseMux e)
  then show ?thesis
    using assms by (auto simp: step_def settles_mux_close)
next
  case (StreamCall ref c)
  then show ?thesis
    using assms by (auto simp: step_def settles_call_stream split: if_splits option.splits)
next
  case SecondPassed
  then show ?thesis
    using assms by (auto simp: step_def)
qed

subsection \<open>Opening an outbound stream\<close>

lemma maxOutboundStreams_fields [simp]:
  "maxOutboundStreams (m\<lparr>streamId := n\<rparr>) = maxOutboundStreams m"
  by (simp add: maxOutboundStreams_def)

lemma initiators_ok_fresh:
  "initiators_ok m \<Longrightarrow> int (streamId m) \<notin> fst ` set (initiators m)"
  by (auto simp: initiators_ok_def list_all_iff)

lemma newStream_cases:
  assumes "initiators_ok m"
  shows "newStream m name =
     (if muxCloseController m then (Inl MuxerClosed, m)
      else if maxOutboundStreams m \<le> length (initiators m)
      then (Inl TooManyOutboundStreams, m\<lparr>streamId := streamId m + 1\<rparr>)
      else (Inr (length (objs m)),
            (pushToSink
               (m\<lparr>streamId := streamId m + 1,
                   objs := objs m @
                     [fresh_stream (int (streamId m))
                        (case name of None \<Rightarrow> toString (int (streamId m)) | Some n \<Rightarrow> n)
                        Initiator (init_maxMsgSize (init m))]\<rparr>)
               \<lparr>msg_id = int (streamId m), msg_type = NEW_STREAM,
                msg_data = Some (case name of None \<Rightarrow> toString (int (streamId m))
                                 | Some n \<Rightarrow> n)\<rparr>)
            \<lparr>initiators := initiators m @ [(int (streamId m), length (objs m))]\<rparr>))"
proof (cases "muxCloseController m")
  case True
  then show ?thesis by (simp add: newStream_def)
next
  case open_: False
  let ?m1 = "m\<lparr>streamId := streamId m + 1\<rparr>"
  let ?name = "case name of None \<Rightarrow> toString (int (streamId m)) | Some n \<Rightarrow> n"
  have ns: "newStream m name = mux_newStream ?m1 (int (streamId m)) ?name Initiator"
    using open_ by (simp add: newStream_def Let_def)
  have le: "length (initiators m) \<le> maxOutboundStreams m"
    using assms by (simp add: initiators_ok_def)
  show ?thesis
  proof (cases "maxOutboundStreams m \<le> length (initiators m)")
    case True
    then have "length (initiators ?m1) = maxOutboundStreams ?m1"
      using le by simp
    then show ?thesis
      using open_ True by (simp add: ns mux_newStream_def)
  next
    case False
    have a: "\<not> (Initiator = Initiator \<and> length (initiators ?m1) = maxOutboundStreams ?m1)"
      using False by simp
    have b: "int (streamId m) \<notin> fst ` set (registry Initiator ?m1)"
      using initiators_ok_fresh [OF assms] by (simp add: registry_def)
    have "mux_newStream ?m1 (int (streamId m)) ?name Initiator =
       (Inr (length (objs m)),
        (pushToSink
           (m\<lparr>streamId := streamId m + 1,
               objs := objs m @
                 [fresh_stream (int (streamId m)) ?name Initiator (init_maxMsgSize (init m))]\<rparr>)
           \<lparr>msg_id = int (streamId m), msg_type = NEW_STREAM, msg_data = Some ?name\<rparr>)
        \<lparr>initiators := initiators m @ [(int (streamId m), length (objs m))]\<rparr>)"
      by (subst mux_newStream_ok [OF a b]) (simp add: registry_update_def)
    then show ?thesis
      unfolding ns using open_ False by simp
  qed
qed

lemma newStream_counter:
  "newStream m name = (Inl TooManyOutboundStreams, m') \<Longrightarrow> streamId m' = streamId m + 1"
  by (auto simp: newStream_def mux_newStream_def Let_def createStream_eq
        split: if_splits)

lemma initiators_ok_settles: "initiators_ok m \<Longrightarrow> settles m m' \<Longrightarrow> initiators_ok m'"
  by (auto simp: initiators_ok_def settles_def maxOutboundStreams_def list_all_iff)

lemma initiators_ok_new: "initiators_ok (new_MplexStreamMuxer i)"
  by (simp add: initiators_ok_def)

lemma initiators_ok_newStream:
  assumes "initiators_ok m"
  shows "initiators_ok (snd (newStream m name))"
proof -
  have le: "length (initiators m) \<le> maxOutboundStreams m"
    and keys: "list_all (\<lambda>e. fst e < int (streamId m)) (initiators m)"
    using assms by (simp_all add: initiators_ok_def)
  show ?thesis
    unfolding newStream_cases [OF assms]
    using le keys by (auto simp: initiators_ok_def maxOutboundStreams_def list_all_iff)
qed

lemma initiators_ok_step:
  assumes "initiators_ok m" and "step m ev = Some (out, m')"
  shows "initiators_ok m'"
proof (cases "is_NewStream ev")
  case True
  then obtain name where ev: "ev = NewStream name" by (cases ev) auto
  have "m' = snd (newStream m name)"
    using assms(2) by (auto simp: ev step_def split: prod.splits sum.splits)
  then show ?thesis by (simp add: initiators_ok_newStream [OF assms(1)])
next
  case False
  then show ?thesis
    using initiators_ok_settles [OF assms(1) settles_step [OF assms(2)]] by simp
qed

lemma initiators_ok_run:
  "initiators_ok m \<Longrightarrow> run m evs = Some (outs, m') \<Longrightarrow> initiators_ok m'"
proof (induction evs arbitrary: m outs)
  case Nil
  then show ?case by simp
next
  case (Cons ev evs)
  from Cons.prems(2) obtain out m1 outs1 where
    st: "step m ev = Some (out, m1)" and rn: "run m1 evs = Some (outs1, m')"
    by (auto split: option.splits)
  from Cons.IH [OF initiators_ok_step [OF Cons.prems(1) st] rn] show ?case .
qed

lemma reached_ok: "run (new_MplexStreamMuxer i) evs = Some (outs, m) \<Longrightarrow> initiators_ok m"
  by (rule initiators_ok_run [OF initiators_ok_new])

text \<open>
  Claim C7. In every state that a multiplexer reaches, \<open>newStream(name?)\<close> throws
  \<open>MuxerClosed\<close> when the close latch is set; otherwise, when \<open>initiators.size\<close> is at
  least \<open>maxOutboundStreams\<close>, it throws \<open>TooManyOutboundStreams\<close> (having advanced the id
  counter); otherwise it takes the counter's value as the id, advances the counter,
  constructs the initiator stream, whose construction sends \<open>NEW_STREAM\<close> with the name,
  registers the stream under that id at the end of \<open>initiators\<close> and returns it.
\<close>

theorem newStream_preconditions:
  assumes "run (new_MplexStreamMuxer i) evs = Some (outs, m)"
  shows "newStream m name =
     (if muxCloseController m then (Inl MuxerClosed, m)
      else if maxOutboundStreams m \<le> length (initiators m)
      then (Inl TooManyOutboundStreams, m\<lparr>streamId := streamId m + 1\<rparr>)
      else (Inr (length (objs m)),
            (pushToSink
               (m\<lparr>streamId := streamId m + 1,
                   objs := objs m @
                     [fresh_stream (int (streamId m))
                        (case name of None \<Rightarrow> toString (int (streamId m)) | Some n \<Rightarrow> n)
                        Initiator (init_maxMsgSize (init m))]\<rparr>)
               \<lparr>msg_id = int (streamId m), msg_type = NEW_STREAM,
                msg_data = Some (case name of None \<Rightarrow> toString (int (streamId m))
                                 | Some n \<Rightarrow> n)\<rparr>)
            \<lparr>initiators := initiators m @ [(int (streamId m), length (objs m))]\<rparr>))"
proof -
  have "initiators_ok m"
    using assms by (rule reached_ok)
  then show ?thesis by (rule newStream_cases)
qed

subsection \<open>An example run\<close>

lemma toString_examples: "toString 0 = [48]" "toString 2 = [50]"
  by (simp_all add: toString_def decimal.simps)

lemma example_init_caps [simp]:
  "init_maxOutboundStreams example_init = Some 1"
  "init_maxMsgSize example_init = None"
  by (simp_all add: example_init_def)

lemma example_opened_fields [simp]:
  "streamId example_opened = 1"
  "objs example_opened = [fresh_stream 0 [48] Initiator None]"
  "initiators example_opened = [(0, 0)]"
  "init example_opened = example_init"
  "muxCloseController example_opened = False"
  by (simp_all add: example_opened_def)

lemma example_reset_fields [simp]:
  "streamId example_reset = 2"
  "objs example_reset = [fst (reset (fresh_stream 0 [48] Initiator None))]"
  "initiators example_reset = []"
  "init example_reset = example_init"
  "muxCloseController example_reset = False"
  by (simp_all add: example_reset_def)

lemma example_reopened_fields [simp]:
  "streamId example_reopened = 3"
  "objs example_reopened = [fst (reset (fresh_stream 0 [48] Initiator None)),
                            fresh_stream 2 [50] Initiator None]"
  "initiators example_reopened = [(2, 1)]"
  by (simp_all add: example_reopened_def)

lemma example_first:
  "newStream (new_MplexStreamMuxer example_init) None = (Inr 0, example_opened)"
  by (simp add: newStream_cases [OF initiators_ok_new] maxOutboundStreams_def
        toString_examples example_opened_def)

lemma example_opened_ok: "initiators_ok example_opened"
  by (simp add: initiators_ok_def maxOutboundStreams_def)

lemma example_second:
  "newStream example_opened None = (Inl TooManyOutboundStreams, example_opened\<lparr>streamId := 2\<rparr>)"
  by (simp add: newStream_cases [OF example_opened_ok] maxOutboundStreams_def)

lemma st_id_reset [simp]: "st_id (fst (reset s)) = st_id s"
  by (simp add: reset_unfold onSourceEnd_def onSinkEnd_def Let_def stream_destroy_def)

lemma fresh_stream_fields [simp]:
  "st_id (fresh_stream i name r mm) = i"
  "st_type (fresh_stream i name r mm) = r"
  "onEnd_given (fresh_stream i name r mm)"
  "\<not> sourceEnded (fresh_stream i name r mm)"
  "\<not> sinkEnded (fresh_stream i name r mm)"
  "endErr (fresh_stream i name r mm) = None"
  by (simp_all add: fresh_stream_def)

lemma example_reset_step:
  "step (example_opened\<lparr>streamId := 2\<rparr>) (StreamCall 0 Reset) = Some (Done, example_reset)"
proof -
  let ?s = "fresh_stream 0 [48] Initiator None"
  have calls: "snd (reset ?s) = [OnEnd (endErr (fst (reset ?s)))]"
    by (simp add: reset_calls)
  have "call_stream (example_opened\<lparr>streamId := 2\<rparr>) 0 (\<lambda>_. reset ?s) = example_reset"
    by (simp add: call_stream_def split_beta Let_def calls registry_update_def
          example_reset_def)
  then show ?thesis
    by (simp add: step_def stream_step_def)
qed

lemma example_reset_ok: "initiators_ok example_reset"
  by (simp add: initiators_ok_def)

lemma example_third:
  "newStream example_reset None = (Inr 1, example_reopened)"
  by (simp add: newStream_cases [OF example_reset_ok] maxOutboundStreams_def
        toString_examples example_reopened_def)

lemma example_steps:
  "step (new_MplexStreamMuxer example_init) (NewStream None) = Some (Opened 0, example_opened)"
  "step example_opened (NewStream None)
     = Some (Failed TooManyOutboundStreams, example_opened\<lparr>streamId := 2\<rparr>)"
  "step example_reset (NewStream None) = Some (Opened 1, example_reopened)"
  by (simp_all add: step_def example_first example_second example_third)

lemma example_run:
  "run (new_MplexStreamMuxer example_init)
     [NewStream None, NewStream None, StreamCall 0 Reset, NewStream None]
   = Some ([Opened 0, Failed TooManyOutboundStreams, Done, Opened 1], example_reopened)"
  by (simp add: example_steps example_reset_step)

theorem newStream_preconditions_witness:
  "run (new_MplexStreamMuxer example_init) [] = Some ([], new_MplexStreamMuxer example_init)
   \<and> newStream (new_MplexStreamMuxer example_init) None = (Inr 0, example_opened)
   \<and> run (new_MplexStreamMuxer example_init) [NewStream None] = Some ([Opened 0], example_opened)
   \<and> newStream example_opened None
       = (Inl TooManyOutboundStreams, example_opened\<lparr>streamId := 2\<rparr>)"
proof -
  have r0: "run (new_MplexStreamMuxer example_init) [] = Some ([], new_MplexStreamMuxer example_init)"
    by simp
  have one: "newStream (new_MplexStreamMuxer example_init) None = (Inr 0, example_opened)"
    using newStream_preconditions [OF r0, of None]
    by (simp add: maxOutboundStreams_def toString_examples example_opened_def)
  have r1: "run (new_MplexStreamMuxer example_init) [NewStream None]
              = Some ([Opened 0], example_opened)"
    by (simp add: step_def one)
  have two: "newStream example_opened None
               = (Inl TooManyOutboundStreams, example_opened\<lparr>streamId := 2\<rparr>)"
    using newStream_preconditions [OF r1, of None]
    by (simp add: maxOutboundStreams_def)
  from r0 one r1 two show ?thesis by simp
qed

subsection \<open>The id counter\<close>

lemma closed_stays_step:
  assumes "step m ev = Some (out, m')" and "muxCloseController m"
  shows "muxCloseController m'"
proof (cases "is_NewStream ev")
  case True
  then obtain name where ev: "ev = NewStream name" by (cases ev) auto
  then show ?thesis
    using assms by (auto simp: step_def newStream_def)
next
  case False
  from settles_step [OF assms(1) False] assms(2) show ?thesis
    by (simp add: settles_def)
qed

lemma closed_stays_run:
  "run m evs = Some (outs, m') \<Longrightarrow> muxCloseController m \<Longrightarrow> muxCloseController m'"
proof (induction evs arbitrary: m outs)
  case Nil
  then show ?case by simp
next
  case (Cons ev evs)
  from Cons.prems(1) obtain out m1 outs1 where
    st: "step m ev = Some (out, m1)" and rn: "run m1 evs = Some (outs1, m')"
    by (auto split: option.splits)
  from Cons.IH [OF rn closed_stays_step [OF st Cons.prems(2)]] show ?case .
qed

lemma newStream_step:
  assumes "initiators_ok m" and "step m (NewStream name) = Some (out, m')"
  shows "(muxCloseController m \<and> out = Failed MuxerClosed \<and> streamId m' = streamId m)
       \<or> (\<not> muxCloseController m \<and> out = Failed TooManyOutboundStreams
           \<and> streamId m' = streamId m + 1)
       \<or> (\<not> muxCloseController m \<and> out = Opened (length (objs m))
           \<and> streamId m' = streamId m + 1
           \<and> st_id (objs m' ! length (objs m)) = int (streamId m))"
  using assms(2) unfolding step_def
  by (simp add: newStream_cases [OF assms(1)] split: if_splits) auto

lemma opened_id:
  assumes "initiators_ok m" and "step m (NewStream name) = Some (Opened r, m')"
  shows "st_id (objs m' ! r) = int (streamId m) \<and> streamId m' = streamId m + 1
         \<and> \<not> muxCloseController m"
  using newStream_step [OF assms] by auto

lemma failed_attempts_Cons:
  "failed_attempts (ev # evs) (out # outs) =
     (if is_NewStream ev \<and> out = Failed TooManyOutboundStreams then 1 else 0)
     + failed_attempts evs outs"
  by (simp add: failed_attempts_def)

lemma counter_mono_step:
  assumes "initiators_ok m" and "step m ev = Some (out, m')"
  shows "streamId m \<le> streamId m'"
proof (cases "is_NewStream ev")
  case True
  then obtain name where ev: "ev = NewStream name" by (cases ev) auto
  from newStream_step [OF assms(1) assms(2) [unfolded ev]] show ?thesis by auto
next
  case False
  from settles_step [OF assms(2) False] show ?thesis by (simp add: settles_def)
qed

lemma counter_mono_run:
  "initiators_ok m \<Longrightarrow> run m evs = Some (outs, m') \<Longrightarrow> streamId m \<le> streamId m'"
proof (induction evs arbitrary: m outs)
  case Nil
  then show ?case by simp
next
  case (Cons ev evs)
  from Cons.prems(2) obtain out m1 outs1 where
    st: "step m ev = Some (out, m1)" and rn: "run m1 evs = Some (outs1, m')"
    by (auto split: option.splits)
  have "streamId m \<le> streamId m1" by (rule counter_mono_step [OF Cons.prems(1) st])
  also have "streamId m1 \<le> streamId m'"
    by (rule Cons.IH [OF initiators_ok_step [OF Cons.prems(1) st] rn])
  finally show ?case .
qed

lemma counter_run:
  assumes "initiators_ok m" and "run m evs = Some (outs, m')"
    and "\<not> muxCloseController m'" and "list_all (\<lambda>out. \<not> is_Opened out) outs"
  shows "streamId m' = streamId m + failed_attempts evs outs"
  using assms
proof (induction evs arbitrary: m outs)
  case Nil
  then show ?case by (simp add: failed_attempts_def)
next
  case (Cons ev evs)
  from Cons.prems(2) obtain out m1 outs1 where
    st: "step m ev = Some (out, m1)" and rn: "run m1 evs = Some (outs1, m')"
    and outs: "outs = out # outs1"
    by (auto split: option.splits)
  have ok1: "initiators_ok m1" by (rule initiators_ok_step [OF Cons.prems(1) st])
  have no: "\<not> is_Opened out" and no1: "list_all (\<lambda>out. \<not> is_Opened out) outs1"
    using Cons.prems(4) outs by simp_all
  have IH: "streamId m' = streamId m1 + failed_attempts evs outs1"
    by (rule Cons.IH [OF ok1 rn Cons.prems(3) no1])
  have open1: "\<not> muxCloseController m1"
    using closed_stays_run [OF rn] Cons.prems(3) by blast
  have open0: "\<not> muxCloseController m"
    using closed_stays_step [OF st] open1 by blast
  show ?case
  proof (cases "is_NewStream ev")
    case True
    then obtain name where ev: "ev = NewStream name" by (cases ev) auto
    from newStream_step [OF Cons.prems(1) st [unfolded ev]] open0 no
    have "out = Failed TooManyOutboundStreams \<and> streamId m1 = streamId m + 1"
      by auto
    then show ?thesis
      using IH True by (simp add: outs failed_attempts_Cons)
  next
    case False
    from settles_step [OF st False] have "streamId m1 = streamId m"
      by (simp add: settles_def)
    then show ?thesis
      using IH False by (simp add: outs failed_attempts_Cons)
  qed
qed

text \<open>
  Claim C10, as amended. A call of \<open>newStream\<close> that throws \<open>TooManyOutboundStreams\<close>
  has advanced the id counter by one. In a run of a multiplexer, a stream opened by a
  later successful \<open>newStream\<close> has a larger id than one opened before, so no id is used
  twice; and when no stream is opened between the two calls, the later id is the earlier
  one plus one plus the number of calls of \<open>newStream\<close> between them that failed with
  \<open>TooManyOutboundStreams\<close>.
\<close>

theorem failed_newStream_advances_counter:
  assumes "run (new_MplexStreamMuxer i) pre = Some (outs0, m0)"
    and "step m0 (NewStream n0) = Some (Opened r0, m1)"
    and "run m1 evs = Some (outs, m2)"
    and "step m2 (NewStream n1) = Some (Opened r1, m3)"
  shows "(newStream m n = (Inl TooManyOutboundStreams, m') \<longrightarrow> streamId m' = streamId m + 1)
       \<and> st_id (objs m1 ! r0) < st_id (objs m3 ! r1)
       \<and> (list_all (\<lambda>out. \<not> is_Opened out) outs \<longrightarrow>
            st_id (objs m3 ! r1) = st_id (objs m1 ! r0) + 1 + int (failed_attempts evs outs))"
proof (intro conjI impI)
  show "streamId m' = streamId m + 1" if "newStream m n = (Inl TooManyOutboundStreams, m')"
    using that by (rule newStream_counter)
  have ok0: "initiators_ok m0" using assms(1) by (rule reached_ok)
  have ok1: "initiators_ok m1" by (rule initiators_ok_step [OF ok0 assms(2)])
  have ok2: "initiators_ok m2" by (rule initiators_ok_run [OF ok1 assms(3)])
  have first: "st_id (objs m1 ! r0) = int (streamId m0)" "streamId m1 = streamId m0 + 1"
    using opened_id [OF ok0 assms(2)] by simp_all
  have last: "st_id (objs m3 ! r1) = int (streamId m2)" "\<not> muxCloseController m2"
    using opened_id [OF ok2 assms(4)] by simp_all
  have "streamId m1 \<le> streamId m2" by (rule counter_mono_run [OF ok1 assms(3)])
  then show "st_id (objs m1 ! r0) < st_id (objs m3 ! r1)"
    using first last by simp
  assume "list_all (\<lambda>out. \<not> is_Opened out) outs"
  from counter_run [OF ok1 assms(3) last(2) this]
  show "st_id (objs m3 ! r1) = st_id (objs m1 ! r0) + 1 + int (failed_attempts evs outs)"
    using first last by simp
qed

theorem failed_newStream_advances_counter_witness:
  "run (new_MplexStreamMuxer example_init) [] = Some ([], new_MplexStreamMuxer example_init)
   \<and> step (new_MplexStreamMuxer example_init) (NewStream None) = Some (Opened 0, example_opened)
   \<and> run example_opened [NewStream None, StreamCall 0 Reset]
       = Some ([Failed TooManyOutboundStreams, Done], example_reset)
   \<and> step example_reset (NewStream None) = Some (Opened 1, example_reopened)
   \<and> newStream example_opened None
       = (Inl TooManyOutboundStreams, example_opened\<lparr>streamId := 2\<rparr>)
   \<and> streamId (example_opened\<lparr>streamId := 2\<rparr>) = streamId example_opened + 1
   \<and> st_id (objs example_opened ! 0) < st_id (objs example_reopened ! 1)
   \<and> list_all (\<lambda>out. \<not> is_Opened out) [Failed TooManyOutboundStreams, Done]
   \<and> failed_attempts [NewStream None, StreamCall 0 Reset] [Failed TooManyOutboundStreams, Done] = 1
   \<and> st_id (objs example_reopened ! 1) = st_id (objs example_opened ! 0) + 1 + 1"
proof -
  have r0: "run (new_MplexStreamMuxer example_init) [] = Some ([], new_MplexStreamMuxer example_init)"
    by simp
  have mid: "run example_opened [NewStream None, StreamCall 0 Reset]
       = Some ([Failed TooManyOutboundStreams, Done], example_reset)"
    by (simp add: example_steps example_reset_step)
  have fa: "failed_attempts [NewStream None, StreamCall 0 Reset]
              [Failed TooManyOutboundStreams, Done] = 1"
    by (simp add: failed_attempts_def)
  have quiet: "list_all (\<lambda>out. \<not> is_Opened out) [Failed TooManyOutboundStreams, Done]"
    by simp
  note inst = failed_newStream_advances_counter [OF r0 example_steps(1) mid example_steps(3),
      of example_opened None "example_opened\<lparr>streamId := 2\<rparr>"]
  from inst example_second quiet fa
  have "streamId (example_opened\<lparr>streamId := 2\<rparr>) = streamId example_opened + 1"
    and "st_id (objs example_opened ! 0) < st_id (objs example_reopened ! 1)"
    and "st_id (objs example_reopened ! 1) = st_id (objs example_opened ! 0) + 1 + 1"
    by simp_all
  with r0 example_steps mid example_second quiet fa show ?thesis
    by (simp del: run.simps)
qed

text \<open>
  Claim C10 as stated puts the later id at the earlier one plus the number of failed
  calls. With a cap of one stream: the first \<open>newStream()\<close> opens the id 0, the second
  fails with \<open>TooManyOutboundStreams\<close>, the stream is reset, and the third \<open>newStream()\<close>
  opens the id 2, which is not \<open>0 + 1\<close>.
\<close>

theorem failed_newStream_advances_counter_counterexample:
  "map_option fst
     (run (new_MplexStreamMuxer example_init)
        [NewStream None, NewStream None, StreamCall 0 Reset, NewStream None])
     = Some [Opened 0, Failed TooManyOutboundStreams, Done, Opened 1]
   \<and> map_option (map st_id \<circ> objs \<circ> snd)
       (run (new_MplexStreamMuxer example_init)
          [NewStream None, NewStream None, StreamCall 0 Reset, NewStream None])
     = Some [0, 2]
   \<and> failed_attempts [NewStream None, StreamCall 0 Reset] [Failed TooManyOutboundStreams, Done] = 1
   \<and> map_option (map st_id \<circ> objs \<circ> snd)
       (run (new_MplexStreamMuxer example_init)
          [NewStream None, NewStream None, StreamCall 0 Reset, NewStream None])
     \<noteq> Some [0, 0 + int (failed_attempts [NewStream None, StreamCall 0 Reset]
                            [Failed TooManyOutboundStreams, Done])]"
  unfolding example_run by (simp add: failed_attempts_def)

end
